theory Spec2Isabelle
  imports Main "HOL-Library.Multiset"
begin

section \<open>Data model (src/app/page.tsx, lines 20-31)\<close>

text \<open>
  \<^verbatim>\<open>type SortState = 'search' | 'shift' | 'insert' | 'init' | 'complete'\<close>.
  The constructors are capitalised, since \<open>insert\<close> is a constant of HOL.
\<close>

datatype SortState = Search | Shift | Insert | Init | Complete

text \<open>
  The \<^verbatim>\<open>description\<close> of a step is a template string of the source with values spliced in.
  Each constructor is one template and carries the values the source interpolates, in the
  order they appear in the template.
\<close>

datatype 'a Description =
    StartText                       \<comment> \<open>line 67, no interpolation\<close>
  | SearchStartText int 'a int int  \<comment> \<open>line 81: \<open>i\<close>, \<open>val\<close>, \<open>low\<close>, \<open>high\<close>\<close>
  | CompareText 'a                  \<comment> \<open>line 93: \<open>arr[mid]\<close>\<close>
  | ResolvedText int                \<comment> \<open>line 110: \<open>pos\<close>\<close>
  | ShiftText int                   \<comment> \<open>line 121: \<open>pos\<close>\<close>
  | InsertText int 'a               \<comment> \<open>line 132: \<open>pos\<close>, \<open>val\<close>\<close>
  | CompleteText                    \<comment> \<open>line 141, no interpolation\<close>

text \<open>
  \<^verbatim>\<open>interface SortingStep\<close>. The optional fields \<^verbatim>\<open>targetIdx?\<close>, \<^verbatim>\<open>searchRange?\<close> and
  \<^verbatim>\<open>codeLine?\<close> are options: a step object literal that does not mention the field has
  \<open>None\<close>. Indices are \<open>int\<close>: the search bound \<open>high\<close> becomes \<open>-1\<close> when the insertion
  position is \<open>0\<close>. The element type is a parameter with an order \<open><\<close>; the source runs at
  \<^verbatim>\<open>number[]\<close>, which the development reads as \<open>int list\<close>.
\<close>

record 'a SortingStep =
  array :: "'a list"
  indices :: "int list"
  targetIdx :: "int option"
  searchRange :: "(int \<times> int) option"
  type :: SortState
  description :: "'a Description"
  codeLine :: "int option"

section \<open>Trace generation (generateSteps, lines 58-146)\<close>

text \<open>
  The source pushes every step onto one mutable array \<^verbatim>\<open>steps\<close> and updates one working copy
  \<^verbatim>\<open>arr\<close>. Both are passed through the loops explicitly: every loop takes the steps pushed
  so far and the current array, and returns them updated.

  An index \<open>k\<close> of the source is an \<open>int\<close>; the array is read with \<open>arr ! nat k\<close> and written
  with \<open>arr[nat k := v]\<close>. Every index the loops use lies within the array: \<open>mid\<close> is between
  \<open>low\<close> and \<open>high\<close> with \<open>0 \<le> low\<close> and \<open>high < i < n\<close> (\<open>probes_props\<close>, \<open>body_steps_cases\<close>),
  the shift loop runs \<open>j\<close> over \<open>pos < j \<le> i\<close> with \<open>0 \<le> pos\<close> (\<open>insert_pos_bounds\<close>). So no
  read is out of range, no write extends the array, and \<open>n\<close> stays the length of \<^verbatim>\<open>arr\<close>.

  The binary search loop, lines 85-102. \<open>Math.floor((low + high) / 2)\<close> is \<open>div 2\<close> on \<open>int\<close>.
  The loop returns the steps and the final \<open>low\<close>.
\<close>

function binary_search ::
  "'a::ord SortingStep list \<Rightarrow> 'a list \<Rightarrow> 'a \<Rightarrow> int \<Rightarrow> int \<Rightarrow> int \<Rightarrow> 'a SortingStep list \<times> int"
where
  "binary_search steps arr val i low high =
     (if low \<le> high then
        (let mid = (low + high) div 2;
             steps' = steps @ [\<lparr>array = arr, indices = [low, mid, high], targetIdx = Some i,
                                searchRange = Some (low, high), type = Search,
                                description = CompareText (arr ! nat mid), codeLine = Some 11\<rparr>]
         in if arr ! nat mid < val
            then binary_search steps' arr val i (mid + 1) high
            else binary_search steps' arr val i low (mid - 1))
      else (steps, low))"
  by pat_completeness auto
termination
  by (relation "measure (\<lambda>(steps, arr, val, i, low, high). nat (high + 1 - low))") auto

text \<open>
  The shift loop, lines 115-125: \<^verbatim>\<open>for (let j = i; j > pos; j--)\<close>. The snapshot is pushed
  before \<^verbatim>\<open>arr[j] = arr[j - 1]\<close> is applied.
\<close>

function shift_loop ::
  "'a SortingStep list \<Rightarrow> 'a list \<Rightarrow> int \<Rightarrow> int \<Rightarrow> int \<Rightarrow> 'a SortingStep list \<times> 'a list"
where
  "shift_loop steps arr i pos j =
     (if j > pos then
        shift_loop
          (steps @ [\<lparr>array = arr, indices = [j, j - 1], targetIdx = Some i,
                     searchRange = None, type = Shift,
                     description = ShiftText pos, codeLine = Some 6\<rparr>])
          (arr[nat j := arr ! nat (j - 1)]) i pos (j - 1)
      else (steps, arr))"
  by pat_completeness auto
termination
  by (relation "measure (\<lambda>(steps, arr, i, pos, j). nat (j - pos))") auto

text \<open>
  The body of the outer loop, lines 72-134, for one value of \<open>i\<close>: the search-start step,
  the binary search, the resolved step, the shifts, the assignment \<^verbatim>\<open>arr[pos] = val\<close> and the
  insert step. The insert step literal (lines 128-134) has no \<^verbatim>\<open>targetIdx\<close>, and the
  search-start step literal (lines 76-83) has no \<^verbatim>\<open>searchRange\<close>.
\<close>

definition loop_body ::
  "'a::ord SortingStep list \<Rightarrow> 'a list \<Rightarrow> int \<Rightarrow> 'a SortingStep list \<times> 'a list"
where
  "loop_body steps arr i =
     (let val = arr ! nat i;
          low = 0;
          high = i - 1;
          steps1 = steps @ [\<lparr>array = arr, indices = [], targetIdx = Some i,
                               searchRange = None, type = Search,
                               description = SearchStartText i val low high,
                               codeLine = Some 3\<rparr>];
          (steps2, low2) = binary_search steps1 arr val i low high;
          pos = low2;
          steps3 = steps2 @ [\<lparr>array = arr, indices = [pos], targetIdx = Some i,
                                searchRange = None, type = Search,
                                description = ResolvedText pos, codeLine = Some 16\<rparr>];
          (steps4, arr4) = shift_loop steps3 arr i pos i;
          arr5 = arr4[nat pos := val]
      in (steps4 @ [\<lparr>array = arr5, indices = [pos], targetIdx = None,
                       searchRange = None, type = Insert,
                       description = InsertText pos val, codeLine = Some 7\<rparr>],
          arr5))"

text \<open>The outer loop, line 71: \<^verbatim>\<open>for (let i = 1; i < n; i++)\<close>.\<close>

function outer_loop ::
  "'a::ord SortingStep list \<Rightarrow> 'a list \<Rightarrow> int \<Rightarrow> int \<Rightarrow> 'a SortingStep list \<times> 'a list"
where
  "outer_loop steps arr n i =
     (if i < n then
        (case loop_body steps arr i of (steps', arr') \<Rightarrow> outer_loop steps' arr' n (i + 1))
      else (steps, arr))"
  by pat_completeness auto
termination
  by (relation "measure (\<lambda>(steps, arr, n, i). nat (n - i))") auto

text \<open>
  \<^verbatim>\<open>generateSteps\<close>: the init step, the outer loop from \<open>i = 1\<close>, the complete step whose
  indices are \<^verbatim>\<open>Array.from({ length: n }, (_, k) => k)\<close>, that is \<open>0, ..., n - 1\<close>.
\<close>

definition generateSteps :: "'a::ord list \<Rightarrow> 'a SortingStep list" where
  "generateSteps initialArray =
     (let arr = initialArray;
          n = int (length arr);
          steps = [\<lparr>array = arr, indices = [], targetIdx = None, searchRange = None,
                     type = Init, description = StartText, codeLine = Some 0\<rparr>]
      in case outer_loop steps arr n 1 of
           (steps', arr') \<Rightarrow>
             steps' @ [\<lparr>array = arr', indices = [0 .. n - 1], targetIdx = None,
                         searchRange = None, type = Complete,
                         description = CompleteText, codeLine = Some 0\<rparr>])"

section \<open>Playback (lines 171-172)\<close>

text \<open>
  \<^verbatim>\<open>stepForward\<close> is \<^verbatim>\<open>prev => Math.min(prev + 1, steps.length - 1)\<close> and
  \<^verbatim>\<open>stepBackward\<close> is \<^verbatim>\<open>prev => Math.max(prev - 1, 0)\<close>; the cursor is an \<open>int\<close>.
\<close>

definition stepForward :: "'a SortingStep list \<Rightarrow> int \<Rightarrow> int" where
  "stepForward steps prev = min (prev + 1) (int (length steps) - 1)"

definition stepBackward :: "int \<Rightarrow> int" where
  "stepBackward prev = max (prev - 1) 0"

section \<open>The steps and the array each loop produces\<close>

text \<open>
  The seven step literals of the source, as functions of the values they mention.
\<close>

definition init_step :: "'a list \<Rightarrow> 'a SortingStep" where
  "init_step arr =
     \<lparr>array = arr, indices = [], targetIdx = None, searchRange = None, type = Init,
      description = StartText, codeLine = Some 0\<rparr>"

definition start_step :: "'a list \<Rightarrow> int \<Rightarrow> 'a SortingStep" where
  "start_step arr i =
     \<lparr>array = arr, indices = [], targetIdx = Some i, searchRange = None, type = Search,
      description = SearchStartText i (arr ! nat i) 0 (i - 1), codeLine = Some 3\<rparr>"

definition probe_step :: "'a list \<Rightarrow> int \<Rightarrow> int \<Rightarrow> int \<Rightarrow> 'a SortingStep" where
  "probe_step arr i low high =
     \<lparr>array = arr, indices = [low, (low + high) div 2, high], targetIdx = Some i,
      searchRange = Some (low, high), type = Search,
      description = CompareText (arr ! nat ((low + high) div 2)), codeLine = Some 11\<rparr>"

definition resolved_step :: "'a list \<Rightarrow> int \<Rightarrow> int \<Rightarrow> 'a SortingStep" where
  "resolved_step arr i pos =
     \<lparr>array = arr, indices = [pos], targetIdx = Some i, searchRange = None, type = Search,
      description = ResolvedText pos, codeLine = Some 16\<rparr>"

definition shift_step :: "'a list \<Rightarrow> int \<Rightarrow> int \<Rightarrow> int \<Rightarrow> 'a SortingStep" where
  "shift_step arr i pos j =
     \<lparr>array = arr, indices = [j, j - 1], targetIdx = Some i, searchRange = None,
      type = Shift, description = ShiftText pos, codeLine = Some 6\<rparr>"

definition insert_step :: "'a list \<Rightarrow> int \<Rightarrow> 'a \<Rightarrow> 'a SortingStep" where
  "insert_step arr pos val =
     \<lparr>array = arr, indices = [pos], targetIdx = None, searchRange = None, type = Insert,
      description = InsertText pos val, codeLine = Some 7\<rparr>"

definition complete_step :: "'a list \<Rightarrow> int \<Rightarrow> 'a SortingStep" where
  "complete_step arr n =
     \<lparr>array = arr, indices = [0 .. n - 1], targetIdx = None, searchRange = None,
      type = Complete, description = CompleteText, codeLine = Some 0\<rparr>"

text \<open>
  What a loop adds to an empty \<^verbatim>\<open>steps\<close> array, and the value it leaves in \<open>low\<close> or
  in \<^verbatim>\<open>arr\<close>. \<open>insert_pos arr i\<close> is the \<^verbatim>\<open>pos\<close> of iteration \<open>i\<close> started on \<open>arr\<close>.
\<close>

definition probes :: "'a::ord list \<Rightarrow> 'a \<Rightarrow> int \<Rightarrow> int \<Rightarrow> int \<Rightarrow> 'a SortingStep list" where
  "probes arr val i low high = fst (binary_search [] arr val i low high)"

definition search_pos :: "'a::ord list \<Rightarrow> 'a \<Rightarrow> int \<Rightarrow> int \<Rightarrow> int \<Rightarrow> int" where
  "search_pos arr val i low high = snd (binary_search [] arr val i low high)"

definition shifts :: "'a list \<Rightarrow> int \<Rightarrow> int \<Rightarrow> int \<Rightarrow> 'a SortingStep list" where
  "shifts arr i pos j = fst (shift_loop [] arr i pos j)"

definition shifted :: "'a list \<Rightarrow> int \<Rightarrow> int \<Rightarrow> int \<Rightarrow> 'a list" where
  "shifted arr i pos j = snd (shift_loop [] arr i pos j)"

definition insert_pos :: "'a::ord list \<Rightarrow> int \<Rightarrow> int" where
  "insert_pos arr i = search_pos arr (arr ! nat i) i 0 (i - 1)"

definition body_arr :: "'a::ord list \<Rightarrow> int \<Rightarrow> 'a list" where
  "body_arr arr i = (shifted arr i (insert_pos arr i) i)[nat (insert_pos arr i) := arr ! nat i]"

definition body_steps :: "'a::ord list \<Rightarrow> int \<Rightarrow> 'a SortingStep list" where
  "body_steps arr i =
     start_step arr i # probes arr (arr ! nat i) i 0 (i - 1) @
     resolved_step arr i (insert_pos arr i) # shifts arr i (insert_pos arr i) i @
     [insert_step (body_arr arr i) (insert_pos arr i) (arr ! nat i)]"

definition outer_steps :: "'a::ord list \<Rightarrow> int \<Rightarrow> int \<Rightarrow> 'a SortingStep list" where
  "outer_steps arr n i = fst (outer_loop [] arr n i)"

definition outer_arr :: "'a::ord list \<Rightarrow> int \<Rightarrow> int \<Rightarrow> 'a list" where
  "outer_arr arr n i = snd (outer_loop [] arr n i)"

text \<open>
  \<open>shift_right a p j\<close> is \<open>a\<close> after the assignments \<^verbatim>\<open>arr[k] = arr[k - 1]\<close> for
  \<open>k = j, j - 1, ..., p + 1\<close>: cell \<open>k\<close> with \<open>p < k \<le> j\<close> holds the old \<open>a[k - 1]\<close>, every
  other cell is unchanged.
\<close>

definition shift_right :: "'a list \<Rightarrow> nat \<Rightarrow> nat \<Rightarrow> 'a list" where
  "shift_right a p j = map (\<lambda>k. if p < k \<and> k \<le> j then a ! (k - 1) else a ! k) [0..<length a]"

text \<open>
  Two relations between steps, used to state what consecutive steps of a trace look like.
  \<open>probe_next s t\<close>: if \<open>s\<close> is a probe step with range \<open>(low, high)\<close> for target \<open>i\<close>, then
  \<open>t\<close> is what lines 97-112 produce next. The comparison of line 97 is replayed on the
  snapshot of \<open>s\<close> (the value being inserted is still at index \<open>i\<close> during the search); when
  the updated bounds cross, \<open>t\<close> is the resolved step with indices \<open>[low]\<close>, otherwise \<open>t\<close>
  is the probe step of the updated bounds.
  \<open>narrower s t\<close>: the range of \<open>t\<close> has a smaller width \<open>high - low\<close> than the range of \<open>s\<close>.
\<close>

definition probe_next :: "'a::ord SortingStep \<Rightarrow> 'a SortingStep \<Rightarrow> bool" where
  "probe_next s t =
     (\<forall>low high i. searchRange s = Some (low, high) \<and> targetIdx s = Some i \<longrightarrow>
        (let mid = (low + high) div 2;
             low' = (if array s ! nat mid < array s ! nat i then mid + 1 else low);
             high' = (if array s ! nat mid < array s ! nat i then high else mid - 1)
         in if low' > high'
            then type t = Search \<and> indices t = [low'] \<and> searchRange t = None \<and>
                 targetIdx t = Some i
            else searchRange t = Some (low', high') \<and> targetIdx t = Some i))"

definition narrower :: "'a SortingStep \<Rightarrow> 'a SortingStep \<Rightarrow> bool" where
  "narrower s t =
     (\<forall>low high low' high'. searchRange s = Some (low, high) \<and> searchRange t = Some (low', high') \<longrightarrow>
        high' - low' < high - low)"

text \<open>
  A number that remembers the position it had in the input. The order compares the numbers
  only, as \<^verbatim>\<open>arr[mid] < val\<close> does; the tag takes part in no comparison. Running
  \<open>generateSteps\<close> on tagged numbers shows where the source moves each input element.
\<close>

datatype tagged = Tagged (tval: int) (tag: nat)

instantiation tagged :: ord
begin

definition less_tagged :: "tagged \<Rightarrow> tagged \<Rightarrow> bool" where
  "less_tagged a b \<longleftrightarrow> tval a < tval b"

definition less_eq_tagged :: "tagged \<Rightarrow> tagged \<Rightarrow> bool" where
  "less_eq_tagged a b \<longleftrightarrow> tval a \<le> tval b"

instance ..

end

text \<open>\<open>erase\<close> removes the tags from a step.\<close>

definition erase :: "tagged SortingStep \<Rightarrow> int SortingStep" where
  "erase s =
     \<lparr>array = map tval (array s), indices = indices s, targetIdx = targetIdx s,
      searchRange = searchRange s, type = type s,
      description = map_Description tval (description s), codeLine = codeLine s\<rparr>"

declare binary_search.simps [simp del] shift_loop.simps [simp del] outer_loop.simps [simp del]

section \<open>Each loop appends to the steps it is given\<close>

lemma binary_search_acc:
  "binary_search steps arr val i low high =
     (steps @ probes arr val i low high, search_pos arr val i low high)"
proof (induction "nat (high + 1 - low)" arbitrary: steps low high rule: less_induct)
  case less
  show ?case
  proof (cases "low \<le> high")
    case False
    then show ?thesis
      by (simp add: probes_def search_pos_def binary_search.simps)
  next
    case True
    define mid where "mid = (low + high) div 2"
    define l' where "l' = (if arr ! nat mid < val then mid + 1 else low)"
    define h' where "h' = (if arr ! nat mid < val then high else mid - 1)"
    have "low \<le> mid" "mid \<le> high"
      using True by (auto simp: mid_def)
    then have dec: "nat (h' + 1 - l') < nat (high + 1 - low)"
      by (auto simp: l'_def h'_def)
    have unfold: "binary_search s arr val i low high =
        binary_search (s @ [probe_step arr i low high]) arr val i l' h'" for s
      using True
      by (subst binary_search.simps) (simp add: Let_def l'_def h'_def mid_def probe_step_def)
    have "binary_search steps arr val i low high =
        ((steps @ [probe_step arr i low high]) @ probes arr val i l' h', search_pos arr val i l' h')"
      by (simp only: unfold less [OF dec])
    moreover have "binary_search [] arr val i low high =
        (([] @ [probe_step arr i low high]) @ probes arr val i l' h', search_pos arr val i l' h')"
      by (simp only: unfold less [OF dec])
    ultimately show ?thesis
      by (simp add: probes_def search_pos_def)
  qed
qed

lemma probes_rec:
  "probes arr val i low high =
     (if low \<le> high then
        probe_step arr i low high #
          (if arr ! nat ((low + high) div 2) < val
           then probes arr val i ((low + high) div 2 + 1) high
           else probes arr val i low ((low + high) div 2 - 1))
      else [])"
  unfolding probes_def
  apply (subst binary_search.simps)
  apply (simp add: Let_def binary_search_acc probe_step_def)
  done

lemma search_pos_rec:
  "search_pos arr val i low high =
     (if low \<le> high then
        (if arr ! nat ((low + high) div 2) < val
         then search_pos arr val i ((low + high) div 2 + 1) high
         else search_pos arr val i low ((low + high) div 2 - 1))
      else low)"
  unfolding search_pos_def
  apply (subst binary_search.simps)
  apply (simp add: Let_def binary_search_acc)
  done

lemma shift_loop_acc:
  "shift_loop steps arr i pos j = (steps @ shifts arr i pos j, shifted arr i pos j)"
proof (induction "nat (j - pos)" arbitrary: steps arr j rule: less_induct)
  case less
  show ?case
  proof (cases "j > pos")
    case False
    then show ?thesis
      by (simp add: shifts_def shifted_def shift_loop.simps)
  next
    case True
    define arr' where "arr' = arr[nat j := arr ! nat (j - 1)]"
    have dec: "nat (j - 1 - pos) < nat (j - pos)"
      using True by simp
    have unfold: "shift_loop s arr i pos j =
        shift_loop (s @ [shift_step arr i pos j]) arr' i pos (j - 1)" for s
      using True
      by (subst shift_loop.simps) (simp add: arr'_def shift_step_def)
    have "shift_loop steps arr i pos j =
        ((steps @ [shift_step arr i pos j]) @ shifts arr' i pos (j - 1), shifted arr' i pos (j - 1))"
      by (simp only: unfold less [OF dec])
    moreover have "shift_loop [] arr i pos j =
        (([] @ [shift_step arr i pos j]) @ shifts arr' i pos (j - 1), shifted arr' i pos (j - 1))"
      by (simp only: unfold less [OF dec])
    ultimately show ?thesis
      by (simp add: shifts_def shifted_def)
  qed
qed

lemma shifts_rec:
  "shifts arr i pos j =
     (if j > pos then
        shift_step arr i pos j # shifts (arr[nat j := arr ! nat (j - 1)]) i pos (j - 1)
      else [])"
  unfolding shifts_def
  by (subst shift_loop.simps) (simp add: shift_loop_acc shift_step_def)

lemma shifted_rec:
  "shifted arr i pos j =
     (if j > pos then shifted (arr[nat j := arr ! nat (j - 1)]) i pos (j - 1) else arr)"
  unfolding shifted_def
  by (subst shift_loop.simps) (simp add: shift_loop_acc)

lemma loop_body_acc: "loop_body steps arr i = (steps @ body_steps arr i, body_arr arr i)"
  by (simp add: loop_body_def Let_def binary_search_acc shift_loop_acc body_steps_def
      body_arr_def insert_pos_def start_step_def resolved_step_def insert_step_def)

lemma outer_loop_acc:
  "outer_loop steps arr n i = (steps @ outer_steps arr n i, outer_arr arr n i)"
proof (induction "nat (n - i)" arbitrary: steps arr i rule: less_induct)
  case less
  show ?case
  proof (cases "i < n")
    case False
    then show ?thesis
      by (simp add: outer_steps_def outer_arr_def outer_loop.simps)
  next
    case True
    have dec: "nat (n - (i + 1)) < nat (n - i)"
      using True by simp
    have unfold: "outer_loop s arr n i =
        outer_loop (s @ body_steps arr i) (body_arr arr i) n (i + 1)" for s
      using True
      by (subst outer_loop.simps) (simp add: loop_body_acc)
    have "outer_loop steps arr n i =
        ((steps @ body_steps arr i) @ outer_steps (body_arr arr i) n (i + 1),
         outer_arr (body_arr arr i) n (i + 1))"
      by (simp only: unfold less [OF dec])
    moreover have "outer_loop [] arr n i =
        (([] @ body_steps arr i) @ outer_steps (body_arr arr i) n (i + 1),
         outer_arr (body_arr arr i) n (i + 1))"
      by (simp only: unfold less [OF dec])
    ultimately show ?thesis
      by (simp add: outer_steps_def outer_arr_def)
  qed
qed

lemma outer_steps_rec:
  "outer_steps arr n i =
     (if i < n then body_steps arr i @ outer_steps (body_arr arr i) n (i + 1) else [])"
  unfolding outer_steps_def
  by (subst outer_loop.simps) (simp add: loop_body_acc outer_loop_acc)

lemma outer_arr_rec:
  "outer_arr arr n i = (if i < n then outer_arr (body_arr arr i) n (i + 1) else arr)"
  unfolding outer_arr_def
  by (subst outer_loop.simps) (simp add: loop_body_acc outer_loop_acc)

lemma generateSteps_unfold:
  "generateSteps xs =
     init_step xs # outer_steps xs (int (length xs)) 1 @
     [complete_step (outer_arr xs (int (length xs)) 1) (int (length xs))]"
  by (simp add: generateSteps_def Let_def outer_loop_acc init_step_def complete_step_def)

section \<open>The binary search\<close>

text \<open>
  Induction along the loop of lines 85-102, and its result: on a sorted prefix \<open>0..i - 1\<close>
  the loop ends with \<open>low\<close> at the first position whose element is not smaller than \<open>val\<close>.
\<close>

lemma search_induct [consumes 0, case_names exit probe]:
  fixes arr :: "'a::ord list"
  assumes "\<And>low high. \<not> low \<le> high \<Longrightarrow> P low high"
    and "\<And>low high. low \<le> high \<Longrightarrow>
           (arr ! nat ((low + high) div 2) < val \<Longrightarrow> P ((low + high) div 2 + 1) high) \<Longrightarrow>
           (\<not> arr ! nat ((low + high) div 2) < val \<Longrightarrow> P low ((low + high) div 2 - 1)) \<Longrightarrow>
           P low high"
  shows "P low high"
proof (induction "nat (high + 1 - low)" arbitrary: low high rule: less_induct)
  case less
  show ?case
  proof (cases "low \<le> high")
    case False
    then show ?thesis by (rule assms(1))
  next
    case True
    then have "nat (high + 1 - ((low + high) div 2 + 1)) < nat (high + 1 - low)"
      and "nat ((low + high) div 2 - 1 + 1 - low) < nat (high + 1 - low)"
      by auto
    then have "P ((low + high) div 2 + 1) high" and "P low ((low + high) div 2 - 1)"
      by (simp_all only: less)
    with True show ?thesis
      by (rule assms(2))
  qed
qed

lemma search_pos_bounds:
  "low \<le> high + 1 \<Longrightarrow>
     low \<le> search_pos arr val i low high \<and> search_pos arr val i low high \<le> high + 1"
proof (induction low high rule: search_induct [of _ arr val])
  case (exit low high)
  then show ?case by (simp add: search_pos_rec [of arr val i low high])
next
  case (probe low high)
  define mid where "mid = (low + high) div 2"
  have m: "low \<le> mid" "mid \<le> high" using probe.hyps by (auto simp: mid_def)
  show ?case
  proof (cases "arr ! nat mid < val")
    case True
    then have "search_pos arr val i low high = search_pos arr val i (mid + 1) high"
      using probe.hyps by (simp add: search_pos_rec [of arr val i low high] mid_def)
    moreover have "mid + 1 \<le> search_pos arr val i (mid + 1) high \<and>
        search_pos arr val i (mid + 1) high \<le> high + 1"
      using probe.IH(1) [folded mid_def, OF True] m by simp
    ultimately show ?thesis using m by simp
  next
    case False
    then have "search_pos arr val i low high = search_pos arr val i low (mid - 1)"
      using probe.hyps by (simp add: search_pos_rec [of arr val i low high] mid_def)
    moreover have "low \<le> search_pos arr val i low (mid - 1) \<and>
        search_pos arr val i low (mid - 1) \<le> mid - 1 + 1"
      using probe.IH(2) [folded mid_def, OF False] m by simp
    ultimately show ?thesis using m by simp
  qed
qed

lemma sorted_take_nth_mono:
  fixes arr :: "'a::linorder list"
  shows "sorted (take m arr) \<Longrightarrow> k \<le> l \<Longrightarrow> l < m \<Longrightarrow> l < length arr \<Longrightarrow> arr ! k \<le> arr ! l"
  using sorted_nth_mono [of "take m arr" k l] by simp

lemma search_pos_partition:
  fixes arr :: "'a::linorder list"
  assumes "sorted (take (nat i) arr)" "i \<le> int (length arr)"
  shows "0 \<le> low \<Longrightarrow> low \<le> high + 1 \<Longrightarrow> high + 1 \<le> i \<Longrightarrow>
     (\<forall>k < nat low. arr ! k < val) \<Longrightarrow>
     (\<forall>k. nat (high + 1) \<le> k \<and> k < nat i \<longrightarrow> val \<le> arr ! k) \<Longrightarrow>
     (\<forall>k < nat (search_pos arr val i low high). arr ! k < val) \<and>
     (\<forall>k. nat (search_pos arr val i low high) \<le> k \<and> k < nat i \<longrightarrow> val \<le> arr ! k)"
proof (induction low high rule: search_induct [of _ arr val])
  case (exit low high)
  then have "nat (high + 1) = nat low" by simp
  moreover have "search_pos arr val i low high = low"
    using exit.hyps by (simp add: search_pos_rec [of arr val i low high])
  ultimately show ?case
    using exit.prems(4,5) by simp
next
  case (probe low high)
  define mid where "mid = (low + high) div 2"
  have m: "low \<le> mid" "mid \<le> high" using probe.hyps by (auto simp: mid_def)
  have midlt: "nat mid < nat i" "nat mid < length arr"
    using m probe.prems(1,3) assms(2) by auto
  show ?case
  proof (cases "arr ! nat mid < val")
    case True
    have A: "\<forall>k < nat (mid + 1). arr ! k < val"
    proof (intro allI impI)
      fix k assume "k < nat (mid + 1)"
      then have "k \<le> nat mid" using m probe.prems(1) by linarith
      then have "arr ! k \<le> arr ! nat mid"
        by (rule sorted_take_nth_mono [OF assms(1) _ midlt])
      then show "arr ! k < val" using True by (rule le_less_trans)
    qed
    have eq: "search_pos arr val i low high = search_pos arr val i (mid + 1) high"
      using probe.hyps True by (simp add: search_pos_rec [of arr val i low high] mid_def)
    have b: "0 \<le> mid + 1" "mid + 1 \<le> high + 1"
      using m probe.prems(1) by simp_all
    show ?thesis
      unfolding eq
      by (rule probe.IH(1) [folded mid_def, OF True b probe.prems(3) A probe.prems(5)])
  next
    case False
    have B: "\<forall>k. nat (mid - 1 + 1) \<le> k \<and> k < nat i \<longrightarrow> val \<le> arr ! k"
    proof (intro allI impI)
      fix k assume k: "nat (mid - 1 + 1) \<le> k \<and> k < nat i"
      then have "nat mid \<le> k" by simp
      moreover have "k < nat i" using k by simp
      moreover have "k < length arr" using k assms(2) by linarith
      ultimately have "arr ! nat mid \<le> arr ! k"
        by (rule sorted_take_nth_mono [OF assms(1)])
      moreover have "val \<le> arr ! nat mid" using False by simp
      ultimately show "val \<le> arr ! k" by simp
    qed
    have eq: "search_pos arr val i low high = search_pos arr val i low (mid - 1)"
      using probe.hyps False by (simp add: search_pos_rec [of arr val i low high] mid_def)
    have b: "low \<le> mid - 1 + 1" "mid - 1 + 1 \<le> i"
      using m probe.prems(3) by simp_all
    show ?thesis
      unfolding eq
      by (rule probe.IH(2) [folded mid_def, OF False probe.prems(1) b probe.prems(4) B])
  qed
qed

section \<open>The shift loop and the insertion\<close>

lemma length_shift_right [simp]: "length (shift_right a p j) = length a"
  by (simp add: shift_right_def)

lemma nth_shift_right:
  "k < length a \<Longrightarrow> shift_right a p j ! k = (if p < k \<and> k \<le> j then a ! (k - 1) else a ! k)"
  by (simp add: shift_right_def)

lemma shift_right_same [simp]: "shift_right a j j = a"
  by (rule nth_equalityI) (auto simp: nth_shift_right)

lemma shift_right_step:
  assumes "p < j" "j < length a"
  shows "shift_right (a[j := a ! (j - 1)]) p (j - 1) = shift_right a p j"
proof (rule nth_equalityI)
  show "length (shift_right (a[j := a ! (j - 1)]) p (j - 1)) = length (shift_right a p j)"
    by simp
next
  fix k assume "k < length (shift_right (a[j := a ! (j - 1)]) p (j - 1))"
  then have k: "k < length a" by simp
  show "shift_right (a[j := a ! (j - 1)]) p (j - 1) ! k = shift_right a p j ! k"
    using k assms by (auto simp: nth_shift_right nth_list_update)
qed

lemma shifted_closed:
  "0 \<le> pos \<Longrightarrow> pos \<le> j \<Longrightarrow> j < int (length arr) \<Longrightarrow>
     shifted arr i pos j = shift_right arr (nat pos) (nat j)"
proof (induction "nat (j - pos)" arbitrary: arr j rule: less_induct)
  case less
  show ?case
  proof (cases "j > pos")
    case False
    with less.prems have "j = pos" by simp
    then show ?thesis by (simp add: shifted_rec [of arr i pos pos])
  next
    case True
    define arr' where "arr' = arr[nat j := arr ! nat (j - 1)]"
    have "shifted arr i pos j = shifted arr' i pos (j - 1)"
      using True by (simp add: shifted_rec [of arr i pos j] arr'_def)
    also have "\<dots> = shift_right arr' (nat pos) (nat (j - 1))"
      using True less.prems by (intro less.hyps) (auto simp: arr'_def)
    also have "\<dots> = shift_right arr (nat pos) (nat j)"
      using shift_right_step [of "nat pos" "nat j" arr] True less.prems
      by (simp add: arr'_def nat_diff_distrib)
    finally show ?thesis .
  qed
qed

lemma rev_upto_rec: "pos < j \<Longrightarrow> rev [pos + 1..j] = j # rev [pos + 1..j - 1]"
  by (simp add: upto_rec2 [of "pos + 1" j])

lemma shifts_closed:
  "0 \<le> pos \<Longrightarrow> pos \<le> j \<Longrightarrow> j < int (length arr) \<Longrightarrow>
     shifts arr i pos j =
       map (\<lambda>j'. shift_step (shift_right arr (nat j') (nat j)) i pos j') (rev [pos + 1..j])"
proof (induction "nat (j - pos)" arbitrary: arr j rule: less_induct)
  case less
  show ?case
  proof (cases "j > pos")
    case False
    then show ?thesis by (simp add: shifts_rec [of arr i pos j])
  next
    case True
    define arr' where "arr' = arr[nat j := arr ! nat (j - 1)]"
    have "shifts arr' i pos (j - 1) =
        map (\<lambda>j'. shift_step (shift_right arr' (nat j') (nat (j - 1))) i pos j')
          (rev [pos + 1..j - 1])"
      using True less.prems by (intro less.hyps) (auto simp: arr'_def)
    also have "\<dots> = map (\<lambda>j'. shift_step (shift_right arr (nat j') (nat j)) i pos j')
          (rev [pos + 1..j - 1])"
    proof (rule map_cong [OF refl])
      fix j' assume "j' \<in> set (rev [pos + 1..j - 1])"
      then have "nat j' < nat j" "nat j < length arr"
        using less.prems by auto
      then show "shift_step (shift_right arr' (nat j') (nat (j - 1))) i pos j' =
          shift_step (shift_right arr (nat j') (nat j)) i pos j'"
        using shift_right_step [of "nat j'" "nat j" arr]
        by (simp add: arr'_def nat_diff_distrib)
    qed
    finally show ?thesis
      using True by (simp add: shifts_rec [of arr i pos j] rev_upto_rec arr'_def)
  qed
qed

lemma insert_closed:
  assumes "p \<le> i" "i < length a"
  shows "(shift_right a p i)[p := a ! i] =
     take p a @ a ! i # take (i - p) (drop p a) @ drop (Suc i) a"
proof (rule nth_equalityI)
  show "length ((shift_right a p i)[p := a ! i]) =
      length (take p a @ a ! i # take (i - p) (drop p a) @ drop (Suc i) a)"
    using assms by simp
next
  fix k assume "k < length ((shift_right a p i)[p := a ! i])"
  then have k: "k < length a" by simp
  consider "k < p" | "k = p" | "p < k" "k \<le> i" | "i < k" by linarith
  then show "(shift_right a p i)[p := a ! i] ! k =
      (take p a @ a ! i # take (i - p) (drop p a) @ drop (Suc i) a) ! k"
  proof cases
    case 1
    then show ?thesis using k assms by (simp add: nth_shift_right nth_append)
  next
    case 2
    then show ?thesis using k assms by (simp add: nth_shift_right nth_append)
  next
    case 3
    then have "k - Suc p < i - p" by linarith
    with 3 show ?thesis using k assms
      by (simp add: nth_shift_right nth_append nth_Cons')
  next
    case 4
    then have "\<not> k - Suc p < i - p" and "Suc (i + (k - Suc p - (i - p))) = k"
      using assms by linarith+
    with 4 show ?thesis using k assms
      by (simp add: nth_shift_right nth_append nth_Cons')
  qed
qed

lemma split_at:
  assumes "p \<le> i" "i < length a"
  shows "a = take p a @ take (i - p) (drop p a) @ a ! i # drop (Suc i) a"
proof -
  have "a = take i a @ a ! i # drop (Suc i) a"
    using assms(2) by (rule id_take_nth_drop)
  moreover have "take i a = take p a @ take (i - p) (drop p a)"
    using assms(1) take_add [of p "i - p" a] by simp
  ultimately show ?thesis by simp
qed

lemma mset_insert_closed:
  assumes "p \<le> i" "i < length a"
  shows "mset ((shift_right a p i)[p := a ! i]) = mset a"
proof -
  have "mset a = mset (take p a @ take (i - p) (drop p a) @ a ! i # drop (Suc i) a)"
    using split_at [OF assms] by simp
  then show ?thesis
    by (simp add: insert_closed [OF assms])
qed

lemma length_shifted [simp]: "length (shifted arr i pos j) = length arr"
proof (induction "nat (j - pos)" arbitrary: arr j rule: less_induct)
  case less
  show ?case
  proof (cases "j > pos")
    case False
    then show ?thesis by (simp add: shifted_rec [of arr i pos j])
  next
    case True
    then have "nat (j - 1 - pos) < nat (j - pos)" by simp
    from less [OF this] True show ?thesis
      by (simp add: shifted_rec [of arr i pos j])
  qed
qed

lemma length_body_arr [simp]: "length (body_arr arr i) = length arr"
  by (simp add: body_arr_def)

lemma insert_pos_bounds: "0 \<le> i \<Longrightarrow> 0 \<le> insert_pos arr i \<and> insert_pos arr i \<le> i"
  using search_pos_bounds [of 0 "i - 1" arr "arr ! nat i" i] by (simp add: insert_pos_def)

lemma body_arr_closed:
  assumes "0 \<le> i" "i < int (length arr)"
  shows "body_arr arr i =
     (shift_right arr (nat (insert_pos arr i)) (nat i))[nat (insert_pos arr i) := arr ! nat i]"
  using assms insert_pos_bounds [OF assms(1), of arr]
  by (simp add: body_arr_def shifted_closed)

lemma mset_body_arr:
  assumes "0 \<le> i" "i < int (length arr)"
  shows "mset (body_arr arr i) = mset arr"
proof -
  have "nat (insert_pos arr i) \<le> nat i" "nat i < length arr"
    using assms insert_pos_bounds [OF assms(1), of arr] by auto
  then show ?thesis
    by (simp add: body_arr_closed [OF assms] mset_insert_closed)
qed

lemma insert_pos_partition:
  fixes arr :: "'a::linorder list"
  assumes "0 \<le> i" "i < int (length arr)" "sorted (take (nat i) arr)"
  shows "(\<forall>k < nat (insert_pos arr i). arr ! k < arr ! nat i) \<and>
     (\<forall>k. nat (insert_pos arr i) \<le> k \<and> k < nat i \<longrightarrow> arr ! nat i \<le> arr ! k)"
  unfolding insert_pos_def
  using assms by (intro search_pos_partition) auto

lemma sorted_body_arr:
  fixes arr :: "'a::linorder list"
  assumes "0 \<le> i" "i < int (length arr)" "sorted (take (nat i) arr)"
  shows "sorted (take (nat (i + 1)) (body_arr arr i))"
proof -
  define p where "p = nat (insert_pos arr i)"
  define m where "m = nat i"
  define v where "v = arr ! m"
  have pm: "p \<le> m" "m < length arr"
    using assms insert_pos_bounds [OF assms(1), of arr] by (auto simp: p_def m_def)
  have part: "\<forall>k < p. arr ! k < v" "\<forall>k. p \<le> k \<and> k < m \<longrightarrow> v \<le> arr ! k"
    using insert_pos_partition [OF assms] by (auto simp: p_def m_def v_def)
  have pre: "take m arr = take p arr @ take (m - p) (drop p arr)"
    using pm(1) take_add [of p "m - p" arr] by simp
  have srt: "sorted (take p arr @ take (m - p) (drop p arr))"
    using assms(3) pre by (simp add: m_def)
  have lo: "x < v" if "x \<in> set (take p arr)" for x
  proof -
    from that obtain k where "k < length (take p arr)" "x = take p arr ! k"
      by (auto simp: in_set_conv_nth)
    then show ?thesis using part(1) by simp
  qed
  have hi: "v \<le> y" if "y \<in> set (take (m - p) (drop p arr))" for y
  proof -
    from that obtain k where k: "k < length (take (m - p) (drop p arr))"
      "y = take (m - p) (drop p arr) ! k"
      by (auto simp: in_set_conv_nth)
    then have "k < m - p" by simp
    then have "y = arr ! (p + k)" "p \<le> p + k \<and> p + k < m"
      using k pm by simp_all
    then show ?thesis using part(2) by blast
  qed
  have "body_arr arr i = take p arr @ v # take (m - p) (drop p arr) @ drop (Suc m) arr"
    using pm by (simp add: body_arr_closed [OF assms(1,2)] insert_closed p_def m_def v_def)
  moreover have "nat (i + 1) = Suc m"
    using assms(1) by (simp add: m_def)
  ultimately have "take (nat (i + 1)) (body_arr arr i) = take p arr @ v # take (m - p) (drop p arr)"
    using pm by (simp add: Suc_diff_le)
  moreover have "sorted (take p arr @ v # take (m - p) (drop p arr))"
    using srt lo hi by (fastforce simp: sorted_append)
  ultimately show ?thesis by simp
qed

section \<open>The outer loop\<close>

lemma outer_arr_correct:
  fixes arr :: "'a::linorder list"
  shows "0 \<le> i \<Longrightarrow> n = int (length arr) \<Longrightarrow> sorted (take (nat i) arr) \<Longrightarrow>
     sorted (outer_arr arr n i) \<and> mset (outer_arr arr n i) = mset arr"
proof (induction "nat (n - i)" arbitrary: arr i rule: less_induct)
  case less
  show ?case
  proof (cases "i < n")
    case False
    then have "take (nat i) arr = arr"
      using less.prems(2) by simp
    with less.prems(3) False show ?thesis
      by (simp add: outer_arr_rec [of arr n i])
  next
    case True
    have dec: "nat (n - (i + 1)) < nat (n - i)"
      using True by simp
    have i: "i < int (length arr)"
      using True less.prems(2) by simp
    have "sorted (outer_arr (body_arr arr i) n (i + 1)) \<and>
        mset (outer_arr (body_arr arr i) n (i + 1)) = mset (body_arr arr i)"
      using less.prems sorted_body_arr [OF less.prems(1) i less.prems(3)]
      by (intro less.hyps [OF dec]) simp_all
    then show ?thesis
      using True by (simp add: outer_arr_rec [of arr n i] mset_body_arr [OF less.prems(1) i])
  qed
qed

lemma last_generateSteps:
  "last (generateSteps xs) = complete_step (outer_arr xs (int (length xs)) 1) (int (length xs))"
  by (simp add: generateSteps_unfold)

section \<open>The steps of one iteration, and where they stand in the trace\<close>

lemma probes_props:
  "s \<in> set (probes arr val i low high) \<Longrightarrow>
     \<exists>l h. s = probe_step arr i l h \<and> low \<le> l \<and> l \<le> h \<and> h \<le> high"
proof (induction low high rule: search_induct [of _ arr val])
  case (exit low high)
  then show ?case by (simp add: probes_rec [of arr val i low high])
next
  case (probe low high)
  define mid where "mid = (low + high) div 2"
  have m: "low \<le> mid" "mid \<le> high" using probe.hyps by (auto simp: mid_def)
  show ?case
  proof (cases "s = probe_step arr i low high")
    case True
    with probe.hyps show ?thesis by blast
  next
    case False
    show ?thesis
    proof (cases "arr ! nat mid < val")
      case True
      with probe.prems probe.hyps False have "s \<in> set (probes arr val i (mid + 1) high)"
        by (simp add: probes_rec [of arr val i low high] mid_def)
      from probe.IH(1) [folded mid_def, OF True this] m show ?thesis
        by force
    next
      case ge: False
      with probe.prems probe.hyps False have "s \<in> set (probes arr val i low (mid - 1))"
        by (simp add: probes_rec [of arr val i low high] mid_def)
      from probe.IH(2) [folded mid_def, OF ge this] m show ?thesis
        by force
    qed
  qed
qed

lemma shifts_props:
  "s \<in> set (shifts arr i pos j) \<Longrightarrow> \<exists>a k. s = shift_step a i pos k \<and> pos < k \<and> k \<le> j"
proof (induction "nat (j - pos)" arbitrary: arr j rule: less_induct)
  case less
  show ?case
  proof (cases "j > pos")
    case False
    with less.prems show ?thesis by (simp add: shifts_rec [of arr i pos j])
  next
    case True
    show ?thesis
    proof (cases "s = shift_step arr i pos j")
      case eq: True
      with True show ?thesis by blast
    next
      case False
      with less.prems True
      have "s \<in> set (shifts (arr[nat j := arr ! nat (j - 1)]) i pos (j - 1))"
        by (simp add: shifts_rec [of arr i pos j])
      moreover have "nat (j - 1 - pos) < nat (j - pos)" using True by simp
      ultimately have "\<exists>a k. s = shift_step a i pos k \<and> pos < k \<and> k \<le> j - 1"
        by (rule less.hyps [rotated])
      then show ?thesis by force
    qed
  qed
qed

lemma body_steps_cases:
  assumes "s \<in> set (body_steps arr i)"
  shows "s = start_step arr i \<or> (\<exists>l h. s = probe_step arr i l h \<and> 0 \<le> l \<and> l \<le> h \<and> h \<le> i - 1) \<or>
     s = resolved_step arr i (insert_pos arr i) \<or>
     (\<exists>a k. s = shift_step a i (insert_pos arr i) k \<and> insert_pos arr i < k \<and> k \<le> i) \<or>
     s = insert_step (body_arr arr i) (insert_pos arr i) (arr ! nat i)"
  using assms probes_props [of s arr "arr ! nat i" i 0 "i - 1"]
    shifts_props [of s arr i "insert_pos arr i" i]
  by (auto simp: body_steps_def)

lemma body_steps_target:
  assumes "s \<in> set (body_steps arr i)"
  shows "(type s = Insert \<and> targetIdx s = None) \<or>
     ((type s = Search \<or> type s = Shift) \<and> targetIdx s = Some i)"
  using body_steps_cases [OF assms]
  by (auto simp: start_step_def probe_step_def resolved_step_def shift_step_def insert_step_def)

lemma outer_steps_target:
  "s \<in> set (outer_steps arr n i) \<Longrightarrow>
     (type s = Insert \<and> targetIdx s = None) \<or>
     ((type s = Search \<or> type s = Shift) \<and> (\<exists>k. targetIdx s = Some k \<and> i \<le> k \<and> k < n))"
proof (induction "nat (n - i)" arbitrary: arr i rule: less_induct)
  case less
  show ?case
  proof (cases "i < n")
    case False
    with less.prems show ?thesis by (simp add: outer_steps_rec [of arr n i])
  next
    case True
    then have dec: "nat (n - (i + 1)) < nat (n - i)" by simp
    from less.prems True
    consider "s \<in> set (body_steps arr i)" | "s \<in> set (outer_steps (body_arr arr i) n (i + 1))"
      by (auto simp: outer_steps_rec [of arr n i])
    then show ?thesis
    proof cases
      case 1
      from body_steps_target [OF this] True show ?thesis by auto
    next
      case 2
      from less.hyps [OF dec this] show ?thesis by force
    qed
  qed
qed

lemma outer_steps_decompose:
  "i0 \<le> i \<Longrightarrow> i < n \<Longrightarrow>
     \<exists>pre post a. outer_steps arr n i0 = pre @ body_steps a i @ post \<and>
       length a = length arr \<and>
       (\<forall>s \<in> set pre. targetIdx s \<noteq> Some i) \<and> (\<forall>s \<in> set post. targetIdx s \<noteq> Some i) \<and>
       (pre = [] \<or> type (last pre) = Insert)"
proof (induction "nat (n - i0)" arbitrary: arr i0 rule: less_induct)
  case less
  have lt: "i0 < n" using less.prems by simp
  then have dec: "nat (n - (i0 + 1)) < nat (n - i0)" by simp
  have rec: "outer_steps arr n i0 = body_steps arr i0 @ outer_steps (body_arr arr i0) n (i0 + 1)"
    using lt by (simp add: outer_steps_rec [of arr n i0])
  show ?case
  proof (cases "i0 = i")
    case True
    have "\<forall>s \<in> set (outer_steps (body_arr arr i) n (i + 1)). targetIdx s \<noteq> Some i"
      using outer_steps_target [of _ "body_arr arr i" n "i + 1"] by fastforce
    with rec True show ?thesis
      apply (rule_tac x = "[]" in exI)
      apply (rule_tac x = "outer_steps (body_arr arr i) n (i + 1)" in exI)
      apply (rule_tac x = arr in exI)
      apply simp
      done
  next
    case False
    with less.prems have "i0 + 1 \<le> i" by simp
    from less.hyps [OF dec this less.prems(2), of "body_arr arr i0"]
    obtain pre post a where d:
      "outer_steps (body_arr arr i0) n (i0 + 1) = pre @ body_steps a i @ post"
      "length a = length arr"
      "\<forall>s \<in> set pre. targetIdx s \<noteq> Some i" "\<forall>s \<in> set post. targetIdx s \<noteq> Some i"
      "pre = [] \<or> type (last pre) = Insert"
      by auto
    have b: "\<forall>s \<in> set (body_steps arr i0). targetIdx s \<noteq> Some i"
      using body_steps_target [of _ arr i0] False by fastforce
    have l: "type (last (body_steps arr i0)) = Insert"
      by (simp add: body_steps_def insert_step_def)
    have ne: "body_steps arr i0 \<noteq> []"
      by (simp add: body_steps_def)
    show ?thesis
      using rec d b l ne
      apply (rule_tac x = "body_steps arr i0 @ pre" in exI)
      apply (rule_tac x = post in exI)
      apply (rule_tac x = a in exI)
      apply (auto simp: last_append)
      done
  qed
qed

lemma outer_steps_types:
  "s \<in> set (outer_steps arr n i) \<Longrightarrow> type s \<noteq> Init \<and> type s \<noteq> Complete"
  using outer_steps_target [of s arr n i] by auto

lemma outer_steps_short: "n \<le> 1 \<Longrightarrow> outer_steps arr n 1 = [] \<and> outer_arr arr n 1 = arr"
  by (simp add: outer_steps_rec [of arr n 1] outer_arr_rec [of arr n 1])

section \<open>Consecutive steps\<close>

lemma outer_steps_mem:
  "s \<in> set (outer_steps arr n i0) \<Longrightarrow> \<exists>a i. s \<in> set (body_steps a i) \<and> i0 \<le> i \<and> i < n"
proof (induction "nat (n - i0)" arbitrary: arr i0 rule: less_induct)
  case less
  show ?case
  proof (cases "i0 < n")
    case False
    with less.prems show ?thesis by (simp add: outer_steps_rec [of arr n i0])
  next
    case True
    then have dec: "nat (n - (i0 + 1)) < nat (n - i0)" by simp
    from less.prems True
    consider "s \<in> set (body_steps arr i0)" | "s \<in> set (outer_steps (body_arr arr i0) n (i0 + 1))"
      by (auto simp: outer_steps_rec [of arr n i0])
    then show ?thesis
    proof cases
      case 1
      with True show ?thesis by blast
    next
      case 2
      from less.hyps [OF dec this] show ?thesis by force
    qed
  qed
qed

lemma probe_next_no_range: "searchRange s = None \<Longrightarrow> probe_next s t"
  by (simp add: probe_next_def)

lemma successively_no_range:
  "\<forall>s \<in> set ss. searchRange s = None \<Longrightarrow> successively probe_next ss"
  by (induction ss) (auto simp: successively_Cons probe_next_no_range)

lemma probe_next_probe_step:
  "probe_next (probe_step arr i low high) t =
     (let mid = (low + high) div 2;
          low' = (if arr ! nat mid < arr ! nat i then mid + 1 else low);
          high' = (if arr ! nat mid < arr ! nat i then high else mid - 1)
      in if low' > high'
         then type t = Search \<and> indices t = [low'] \<and> searchRange t = None \<and>
              targetIdx t = Some i
         else searchRange t = Some (low', high') \<and> targetIdx t = Some i)"
  by (simp add: probe_next_def probe_step_def)

lemma probes_then_resolved:
  assumes "successively probe_next (resolved_step arr i p # rest)"
  shows "search_pos arr (arr ! nat i) i low high = p \<Longrightarrow>
     successively probe_next (probes arr (arr ! nat i) i low high @ resolved_step arr i p # rest)"
proof (induction low high rule: search_induct [of _ arr "arr ! nat i"])
  case (exit low high)
  then have "probes arr (arr ! nat i) i low high = []"
    by (simp add: probes_rec [of arr "arr ! nat i" i low high])
  with assms show ?case by simp
next
  case (probe low high)
  define mid where "mid = (low + high) div 2"
  define l' where "l' = (if arr ! nat mid < arr ! nat i then mid + 1 else low)"
  define h' where "h' = (if arr ! nat mid < arr ! nat i then high else mid - 1)"
  let ?rest = "probes arr (arr ! nat i) i l' h' @ resolved_step arr i p # rest"
  have pr: "probes arr (arr ! nat i) i low high =
      probe_step arr i low high # probes arr (arr ! nat i) i l' h'"
    using probe.hyps
    by (simp add: probes_rec [of arr "arr ! nat i" i low high] mid_def l'_def h'_def)
  have "search_pos arr (arr ! nat i) i low high = search_pos arr (arr ! nat i) i l' h'"
    using probe.hyps
    by (simp add: search_pos_rec [of arr "arr ! nat i" i low high] mid_def l'_def h'_def)
  with probe.prems have sp: "search_pos arr (arr ! nat i) i l' h' = p"
    by simp
  have tl: "successively probe_next ?rest"
  proof (cases "arr ! nat mid < arr ! nat i")
    case True
    then have "l' = mid + 1" "h' = high" by (simp_all add: l'_def h'_def)
    with probe.IH(1) [folded mid_def, OF True] sp show ?thesis
      by simp
  next
    case False
    then have "l' = low" "h' = mid - 1" by (simp_all add: l'_def h'_def)
    with probe.IH(2) [folded mid_def, OF False] sp show ?thesis
      by simp
  qed
  have nx: "probe_next (probe_step arr i low high) t =
      (if l' > h'
       then type t = Search \<and> indices t = [l'] \<and> searchRange t = None \<and> targetIdx t = Some i
       else searchRange t = Some (l', h') \<and> targetIdx t = Some i)" for t
    by (simp only: probe_next_probe_step Let_def l'_def h'_def mid_def)
  have hd: "probe_next (probe_step arr i low high) (hd ?rest)"
  proof (cases "l' \<le> h'")
    case True
    then have hdeq: "hd ?rest = probe_step arr i l' h'"
      by (simp add: probes_rec [of arr "arr ! nat i" i l' h'])
    show ?thesis
      unfolding hdeq nx using True by (simp add: probe_step_def)
  next
    case False
    then have "probes arr (arr ! nat i) i l' h' = []"
      by (simp add: probes_rec [of arr "arr ! nat i" i l' h'])
    then have hdeq: "hd ?rest = resolved_step arr i p"
      by simp
    have "p = l'"
      using sp False by (simp add: search_pos_rec [of arr "arr ! nat i" i l' h'])
    then show ?thesis
      unfolding hdeq nx using False by (simp add: resolved_step_def)
  qed
  have "?rest \<noteq> []" by simp
  with tl hd show ?case
    by (simp only: pr append_Cons successively_Cons simp_thms)
qed

lemma shifts_no_range: "s \<in> set (shifts arr i pos j) \<Longrightarrow> searchRange s = None"
  using shifts_props [of s arr i pos j] by (auto simp: shift_step_def)

lemma body_steps_successively: "successively probe_next (body_steps arr i)"
proof -
  have "successively probe_next
      (resolved_step arr i (insert_pos arr i) # shifts arr i (insert_pos arr i) i @
       [insert_step (body_arr arr i) (insert_pos arr i) (arr ! nat i)])"
    by (rule successively_no_range)
      (auto simp: resolved_step_def insert_step_def shifts_no_range)
  then have "successively probe_next
      (probes arr (arr ! nat i) i 0 (i - 1) @
       resolved_step arr i (insert_pos arr i) # shifts arr i (insert_pos arr i) i @
       [insert_step (body_arr arr i) (insert_pos arr i) (arr ! nat i)])"
    by (rule probes_then_resolved) (simp add: insert_pos_def)
  then show ?thesis
    by (simp add: body_steps_def successively_Cons probe_next_no_range start_step_def)
qed

lemma last_body_steps:
  "last (body_steps arr i) = insert_step (body_arr arr i) (insert_pos arr i) (arr ! nat i)"
  by (simp add: body_steps_def)

lemma outer_steps_last:
  "outer_steps arr n i \<noteq> [] \<Longrightarrow> type (last (outer_steps arr n i)) = Insert"
proof (induction "nat (n - i)" arbitrary: arr i rule: less_induct)
  case less
  show ?case
  proof (cases "i < n")
    case False
    with less.prems show ?thesis by (simp add: outer_steps_rec [of arr n i])
  next
    case True
    then have dec: "nat (n - (i + 1)) < nat (n - i)" by simp
    have rec: "outer_steps arr n i = body_steps arr i @ outer_steps (body_arr arr i) n (i + 1)"
      using True by (simp add: outer_steps_rec [of arr n i])
    show ?thesis
    proof (cases "outer_steps (body_arr arr i) n (i + 1) = []")
      case True
      then show ?thesis by (simp add: rec last_body_steps insert_step_def)
    next
      case False
      with less.hyps [OF dec False] show ?thesis by (simp add: rec)
    qed
  qed
qed

lemma outer_steps_successively: "successively probe_next (outer_steps arr n i)"
proof (induction "nat (n - i)" arbitrary: arr i rule: less_induct)
  case less
  show ?case
  proof (cases "i < n")
    case False
    then show ?thesis by (simp add: outer_steps_rec [of arr n i])
  next
    case True
    then have dec: "nat (n - (i + 1)) < nat (n - i)" by simp
    have rec: "outer_steps arr n i = body_steps arr i @ outer_steps (body_arr arr i) n (i + 1)"
      using True by (simp add: outer_steps_rec [of arr n i])
    have "probe_next (last (body_steps arr i)) t" for t
      by (rule probe_next_no_range) (simp add: last_body_steps insert_step_def)
    with less.hyps [OF dec] body_steps_successively [of arr i] show ?thesis
      by (simp add: rec successively_append_iff)
  qed
qed

lemma body_steps_range:
  assumes "s \<in> set (body_steps arr i)"
  shows "searchRange s = None \<or>
     (\<exists>l h. s = probe_step arr i l h \<and> 0 \<le> l \<and> l \<le> h \<and> h \<le> i - 1)"
  using body_steps_cases [OF assms]
  by (auto simp: start_step_def resolved_step_def shift_step_def insert_step_def)

lemma outer_steps_range:
  assumes "s \<in> set (outer_steps arr n i0)"
  shows "searchRange s = None \<or>
     (\<exists>a i l h. s = probe_step a i l h \<and> 0 \<le> l \<and> l \<le> h \<and> h \<le> i - 1 \<and> i0 \<le> i \<and> i < n)"
proof -
  from outer_steps_mem [OF assms] obtain a i
    where "s \<in> set (body_steps a i)" "i0 \<le> i" "i < n" by blast
  with body_steps_range [of s a i] show ?thesis by blast
qed

lemma generateSteps_successively: "successively probe_next (generateSteps xs)"
proof -
  let ?mid = "outer_steps xs (int (length xs)) 1"
  have "probe_next (last ?mid) t" if "?mid \<noteq> []" for t
  proof (rule probe_next_no_range)
    from outer_steps_last [OF that] have "last ?mid \<in> set ?mid" "type (last ?mid) = Insert"
      using that by simp_all
    with outer_steps_range [of "last ?mid" xs "int (length xs)" 1]
    show "searchRange (last ?mid) = None"
      by (auto simp: probe_step_def)
  qed
  then show ?thesis
    using outer_steps_successively [of xs "int (length xs)" 1]
    by (auto simp: generateSteps_unfold successively_Cons successively_append_iff
        probe_next_no_range init_step_def)
qed

lemma successively_nth:
  "successively P ss \<Longrightarrow> Suc k < length ss \<Longrightarrow> P (ss ! k) (ss ! Suc k)"
proof (induction ss arbitrary: k)
  case Nil
  then show ?case by simp
next
  case (Cons s ss)
  show ?case
  proof (cases k)
    case 0
    with Cons.prems show ?thesis
      by (cases ss) (simp_all add: successively_Cons)
  next
    case (Suc m)
    with Cons.prems have "successively P ss" "Suc m < length ss"
      by (auto simp: successively_Cons)
    with Cons.IH Suc show ?thesis by simp
  qed
qed

section \<open>Selecting the steps of one iteration\<close>

lemma generateSteps_decompose:
  assumes "1 \<le> i" "i < int (length xs)"
  shows "\<exists>pre post a. generateSteps xs = pre @ body_steps a i @ post \<and>
     length a = length xs \<and> pre \<noteq> [] \<and>
     (type (last pre) = Init \<or> type (last pre) = Insert) \<and>
     (\<forall>s \<in> set pre. targetIdx s \<noteq> Some i) \<and> (\<forall>s \<in> set post. targetIdx s \<noteq> Some i)"
proof -
  from outer_steps_decompose [OF assms, of xs]
  obtain pre post a where d:
    "outer_steps xs (int (length xs)) 1 = pre @ body_steps a i @ post"
    "length a = length xs"
    "\<forall>s \<in> set pre. targetIdx s \<noteq> Some i" "\<forall>s \<in> set post. targetIdx s \<noteq> Some i"
    "pre = [] \<or> type (last pre) = Insert"
    by blast
  let ?c = "complete_step (outer_arr xs (int (length xs)) 1) (int (length xs))"
  have "generateSteps xs = (init_step xs # pre) @ body_steps a i @ (post @ [?c])"
    by (simp add: generateSteps_unfold d(1))
  moreover have "type (last (init_step xs # pre)) = Init \<or> type (last (init_step xs # pre)) = Insert"
    using d(5) by (auto simp: init_step_def)
  moreover have "\<forall>s \<in> set (init_step xs # pre). targetIdx s \<noteq> Some i"
    using d(3) by (simp add: init_step_def)
  moreover have "\<forall>s \<in> set (post @ [?c]). targetIdx s \<noteq> Some i"
    using d(4) by (simp add: complete_step_def)
  ultimately show ?thesis
    using d(2) by blast
qed

lemma filter_iteration:
  assumes "\<And>s. Q s \<Longrightarrow> targetIdx s = Some i" "1 \<le> i" "i < int (length xs)"
  shows "\<exists>a. length a = length xs \<and> filter Q (generateSteps xs) = filter Q (body_steps a i)"
proof -
  from generateSteps_decompose [OF assms(2,3)]
  obtain pre post a where d: "generateSteps xs = pre @ body_steps a i @ post"
    "length a = length xs"
    "\<forall>s \<in> set pre. targetIdx s \<noteq> Some i" "\<forall>s \<in> set post. targetIdx s \<noteq> Some i"
    by blast
  have "filter Q pre = []" "filter Q post = []"
    using d(3,4) assms(1) by (auto simp: filter_empty_conv)
  with d(1,2) show ?thesis by auto
qed

lemma filter_no_iteration:
  assumes "\<And>s. Q s \<Longrightarrow> targetIdx s = Some i" "\<not> (1 \<le> i \<and> i < int (length xs))"
  shows "filter Q (generateSteps xs) = []"
proof -
  have "\<not> Q s" if "s \<in> set (generateSteps xs)" for s
  proof
    assume "Q s"
    then have t: "targetIdx s = Some i" by (rule assms(1))
    with that have "s \<in> set (outer_steps xs (int (length xs)) 1)"
      by (auto simp: generateSteps_unfold init_step_def complete_step_def)
    from outer_steps_target [OF this] t assms(2) show False by auto
  qed
  then show ?thesis by (auto simp: filter_empty_conv)
qed

lemma probes_narrower: "sorted_wrt narrower (probes arr val i low high)"
proof (induction low high rule: search_induct [of _ arr val])
  case (exit low high)
  then show ?case by (simp add: probes_rec [of arr val i low high])
next
  case (probe low high)
  define mid where "mid = (low + high) div 2"
  define l' where "l' = (if arr ! nat mid < val then mid + 1 else low)"
  define h' where "h' = (if arr ! nat mid < val then high else mid - 1)"
  have m: "low \<le> mid" "mid \<le> high" using probe.hyps by (auto simp: mid_def)
  have pr: "probes arr val i low high = probe_step arr i low high # probes arr val i l' h'"
    using probe.hyps by (simp add: probes_rec [of arr val i low high] mid_def l'_def h'_def)
  have w: "h' - l' < high - low"
    using m by (auto simp: l'_def h'_def)
  have tl: "sorted_wrt narrower (probes arr val i l' h')"
  proof (cases "arr ! nat mid < val")
    case True
    then have "l' = mid + 1" "h' = high" by (simp_all add: l'_def h'_def)
    with probe.IH(1) [folded mid_def, OF True] show ?thesis by simp
  next
    case False
    then have "l' = low" "h' = mid - 1" by (simp_all add: l'_def h'_def)
    with probe.IH(2) [folded mid_def, OF False] show ?thesis by simp
  qed
  have "narrower (probe_step arr i low high) t" if "t \<in> set (probes arr val i l' h')" for t
  proof -
    from probes_props [OF that] obtain l h
      where "t = probe_step arr i l h" "l' \<le> l" "l \<le> h" "h \<le> h'" by blast
    with w show ?thesis by (simp add: narrower_def probe_step_def)
  qed
  with tl show ?case by (simp add: pr)
qed

lemma filter_probes_body:
  "filter (\<lambda>s. searchRange s \<noteq> None \<and> targetIdx s = Some i) (body_steps a i) =
     probes a (a ! nat i) i 0 (i - 1)"
proof -
  let ?Q = "\<lambda>s. searchRange s \<noteq> None \<and> targetIdx s = Some i"
  have "?Q s" if "s \<in> set (probes a (a ! nat i) i 0 (i - 1))" for s
  proof -
    from probes_props [OF that] obtain l h where "s = probe_step a i l h" by blast
    then show ?thesis by (simp add: probe_step_def)
  qed
  then have "filter ?Q (probes a (a ! nat i) i 0 (i - 1)) = probes a (a ! nat i) i 0 (i - 1)"
    by (intro filter_True) blast
  moreover have "filter ?Q (shifts a i (insert_pos a i) i) = []"
    using shifts_no_range [of _ a i "insert_pos a i" i] by (auto simp: filter_empty_conv)
  ultimately show ?thesis
    by (simp add: body_steps_def start_step_def resolved_step_def insert_step_def)
qed

lemma filter_resolved_body:
  "filter (\<lambda>s. type s = Search \<and> targetIdx s = Some i \<and> searchRange s = None \<and> indices s \<noteq> [])
     (body_steps a i) = [resolved_step a i (insert_pos a i)]"
proof -
  let ?Q = "\<lambda>s::'a SortingStep.
    type s = Search \<and> targetIdx s = Some i \<and> searchRange s = None \<and> indices s \<noteq> []"
  have "\<not> ?Q s" if "s \<in> set (probes a (a ! nat i) i 0 (i - 1))" for s
  proof -
    from probes_props [OF that] obtain l h where "s = probe_step a i l h" by blast
    then show ?thesis by (simp add: probe_step_def)
  qed
  then have "filter ?Q (probes a (a ! nat i) i 0 (i - 1)) = []"
    by (simp only: filter_empty_conv) blast
  moreover have "\<not> ?Q s" if "s \<in> set (shifts a i (insert_pos a i) i)" for s
  proof -
    from shifts_props [OF that] obtain b k where "s = shift_step b i (insert_pos a i) k" by blast
    then show ?thesis by (simp add: shift_step_def)
  qed
  then have "filter ?Q (shifts a i (insert_pos a i) i) = []"
    by (simp only: filter_empty_conv) blast
  ultimately show ?thesis
    by (simp add: body_steps_def start_step_def resolved_step_def insert_step_def)
qed

lemma filter_shifts_body:
  "filter (\<lambda>s. type s = Shift \<and> targetIdx s = Some i) (body_steps a i) =
     shifts a i (insert_pos a i) i"
proof -
  let ?Q = "\<lambda>s::'a SortingStep. type s = Shift \<and> targetIdx s = Some i"
  have "\<not> ?Q s" if "s \<in> set (probes a (a ! nat i) i 0 (i - 1))" for s
  proof -
    from probes_props [OF that] obtain l h where "s = probe_step a i l h" by blast
    then show ?thesis by (simp add: probe_step_def)
  qed
  then have "filter ?Q (probes a (a ! nat i) i 0 (i - 1)) = []"
    by (simp only: filter_empty_conv) blast
  moreover have "?Q s" if "s \<in> set (shifts a i (insert_pos a i) i)" for s
  proof -
    from shifts_props [OF that] obtain b k where "s = shift_step b i (insert_pos a i) k" by blast
    then show ?thesis by (simp add: shift_step_def)
  qed
  then have "filter ?Q (shifts a i (insert_pos a i) i) = shifts a i (insert_pos a i) i"
    by (intro filter_True) blast
  ultimately show ?thesis
    by (simp add: body_steps_def start_step_def resolved_step_def insert_step_def)
qed

lemma filter_insert_body:
  "filter (\<lambda>s. type s = Insert) (body_steps a i) =
     [insert_step (body_arr a i) (insert_pos a i) (a ! nat i)]"
proof -
  let ?Q = "\<lambda>s::'a SortingStep. type s = Insert"
  have "\<not> ?Q s" if "s \<in> set (probes a (a ! nat i) i 0 (i - 1))" for s
  proof -
    from probes_props [OF that] obtain l h where "s = probe_step a i l h" by blast
    then show ?thesis by (simp add: probe_step_def)
  qed
  then have "filter ?Q (probes a (a ! nat i) i 0 (i - 1)) = []"
    by (simp only: filter_empty_conv) blast
  moreover have "\<not> ?Q s" if "s \<in> set (shifts a i (insert_pos a i) i)" for s
  proof -
    from shifts_props [OF that] obtain b k where "s = shift_step b i (insert_pos a i) k" by blast
    then show ?thesis by (simp add: shift_step_def)
  qed
  then have "filter ?Q (shifts a i (insert_pos a i) i) = []"
    by (simp only: filter_empty_conv) blast
  ultimately show ?thesis
    by (simp add: body_steps_def start_step_def resolved_step_def insert_step_def)
qed

lemma outer_steps_inserts:
  fixes arr :: "'a::linorder list"
  shows "0 \<le> i \<Longrightarrow> n \<le> int (length arr) \<Longrightarrow> sorted (take (nat i) arr) \<Longrightarrow>
     length (filter (\<lambda>s. type s = Insert) (outer_steps arr n i)) = nat (n - i) \<and>
     (\<forall>k < nat (n - i).
        sorted (take (nat i + k + 1) (array (filter (\<lambda>s. type s = Insert) (outer_steps arr n i) ! k))) \<and>
        mset (array (filter (\<lambda>s. type s = Insert) (outer_steps arr n i) ! k)) = mset arr)"
proof (induction "nat (n - i)" arbitrary: arr i rule: less_induct)
  case less
  let ?ins = "\<lambda>a j. filter (\<lambda>s. type s = Insert) (outer_steps a n j)"
  show ?case
  proof (cases "i < n")
    case False
    then show ?thesis by (simp add: outer_steps_rec [of arr n i])
  next
    case True
    have dec: "nat (n - (i + 1)) < nat (n - i)" using True by simp
    have ia: "i < int (length arr)" using True less.prems(2) by simp
    define arr' where "arr' = body_arr arr i"
    have s': "sorted (take (nat (i + 1)) arr')"
      unfolding arr'_def by (rule sorted_body_arr [OF less.prems(1) ia less.prems(3)])
    have m': "mset arr' = mset arr"
      unfolding arr'_def by (rule mset_body_arr [OF less.prems(1) ia])
    have ih: "length (?ins arr' (i + 1)) = nat (n - (i + 1)) \<and>
        (\<forall>k < nat (n - (i + 1)).
           sorted (take (nat (i + 1) + k + 1) (array (?ins arr' (i + 1) ! k))) \<and>
           mset (array (?ins arr' (i + 1) ! k)) = mset arr')"
      using less.prems(1,2) s' by (intro less.hyps [OF dec]) (simp_all add: arr'_def)
    have rec: "?ins arr i =
        insert_step arr' (insert_pos arr i) (arr ! nat i) # ?ins arr' (i + 1)"
      using True by (simp add: outer_steps_rec [of arr n i] filter_insert_body arr'_def)
    have len: "length (?ins arr i) = nat (n - i)"
      using ih True by (simp add: rec)
    have each: "sorted (take (nat i + k + 1) (array (?ins arr i ! k))) \<and>
        mset (array (?ins arr i ! k)) = mset arr" if "k < nat (n - i)" for k
    proof (cases k)
      case 0
      have "nat (i + 1) = nat i + 1" using less.prems(1) by simp
      with s' m' 0 show ?thesis
        by (simp add: rec insert_step_def)
    next
      case (Suc k')
      with that have "k' < nat (n - (i + 1))" by simp
      with ih have "sorted (take (nat (i + 1) + k' + 1) (array (?ins arr' (i + 1) ! k'))) \<and>
          mset (array (?ins arr' (i + 1) ! k')) = mset arr'"
        by blast
      moreover have "nat (i + 1) + k' + 1 = nat i + k + 1"
        using less.prems(1) Suc by simp
      ultimately show ?thesis
        using m' Suc by (simp add: rec)
    qed
    from len each show ?thesis by blast
  qed
qed

section \<open>The iteration a step belongs to\<close>

text \<open>
  The steps one iteration pushes end with its insert step and hold no other insert step, and
  every step between the init step and the complete step lies in the block of one iteration.
\<close>

lemma body_steps_front:
  "\<exists>front. body_steps a i = front @ [insert_step (body_arr a i) (insert_pos a i) (a ! nat i)] \<and>
     (\<forall>s \<in> set front. type s \<noteq> Insert)"
proof -
  let ?front = "start_step a i # probes a (a ! nat i) i 0 (i - 1) @
    resolved_step a i (insert_pos a i) # shifts a i (insert_pos a i) i"
  have "type s \<noteq> Insert" if "s \<in> set (probes a (a ! nat i) i 0 (i - 1))" for s
  proof -
    from probes_props [OF that] obtain l h where "s = probe_step a i l h" by blast
    then show ?thesis by (simp add: probe_step_def)
  qed
  moreover have "type s \<noteq> Insert" if "s \<in> set (shifts a i (insert_pos a i) i)" for s
  proof -
    from shifts_props [OF that] obtain b k where "s = shift_step b i (insert_pos a i) k" by blast
    then show ?thesis by (simp add: shift_step_def)
  qed
  ultimately have "\<forall>s \<in> set ?front. type s \<noteq> Insert"
    by (auto simp: start_step_def resolved_step_def)
  moreover have "body_steps a i =
      ?front @ [insert_step (body_arr a i) (insert_pos a i) (a ! nat i)]"
    by (simp add: body_steps_def)
  ultimately show ?thesis by blast
qed

lemma body_steps_no_insert_before:
  assumes "m < length (body_steps a i)" "type (body_steps a i ! m) \<noteq> Insert"
  shows "filter (\<lambda>s. type s = Insert) (take m (body_steps a i)) = []"
proof -
  from body_steps_front [of a i] obtain front where f:
    "body_steps a i = front @ [insert_step (body_arr a i) (insert_pos a i) (a ! nat i)]"
    "\<forall>s \<in> set front. type s \<noteq> Insert"
    by blast
  have "m \<noteq> length front"
    using assms(2) by (auto simp: f(1) insert_step_def)
  with assms(1) have "m < length front"
    by (simp add: f(1))
  then have "take m (body_steps a i) = take m front"
    by (simp add: f(1))
  moreover have "\<forall>s \<in> set (take m front). type s \<noteq> Insert"
    using f(2) by (meson in_set_takeD)
  ultimately show ?thesis
    by (simp add: filter_empty_conv)
qed

lemma outer_steps_block:
  "k < length (outer_steps arr n i0) \<Longrightarrow>
     \<exists>pre a i post. outer_steps arr n i0 = pre @ body_steps a i @ post \<and>
       length pre \<le> k \<and> k < length pre + length (body_steps a i) \<and> i0 \<le> i \<and> i < n \<and>
       length (filter (\<lambda>s. type s = Insert) pre) = nat (i - i0)"
proof (induction "nat (n - i0)" arbitrary: arr i0 k rule: less_induct)
  case less
  show ?case
  proof (cases "i0 < n")
    case False
    with less.prems show ?thesis by (simp add: outer_steps_rec [of arr n i0])
  next
    case True
    then have dec: "nat (n - (i0 + 1)) < nat (n - i0)" by simp
    let ?rest = "outer_steps (body_arr arr i0) n (i0 + 1)"
    have rec: "outer_steps arr n i0 = body_steps arr i0 @ ?rest"
      using True by (simp add: outer_steps_rec [of arr n i0])
    show ?thesis
    proof (cases "k < length (body_steps arr i0)")
      case inb: True
      have "outer_steps arr n i0 = [] @ body_steps arr i0 @ ?rest"
        by (simp add: rec)
      moreover have "length ([] :: 'a SortingStep list) \<le> k"
        "k < length ([] :: 'a SortingStep list) + length (body_steps arr i0)"
        "length (filter (\<lambda>s. type s = Insert) ([] :: 'a SortingStep list)) = nat (i0 - i0)"
        using inb by simp_all
      ultimately show ?thesis
        using True by blast
    next
      case False
      define k' where "k' = k - length (body_steps arr i0)"
      have "k' < length ?rest"
        using less.prems False by (simp add: rec k'_def)
      from less.hyps [OF dec this]
      obtain pre a i post where d: "?rest = pre @ body_steps a i @ post"
        "length pre \<le> k'" "k' < length pre + length (body_steps a i)" "i0 + 1 \<le> i" "i < n"
        "length (filter (\<lambda>s. type s = Insert) pre) = nat (i - (i0 + 1))"
        by blast
      have "outer_steps arr n i0 = (body_steps arr i0 @ pre) @ body_steps a i @ post"
        by (simp add: rec d(1))
      moreover have "length (body_steps arr i0 @ pre) \<le> k"
        using d(2) False by (simp add: k'_def)
      moreover have "k < length (body_steps arr i0 @ pre) + length (body_steps a i)"
        using d(3) False by (simp add: k'_def)
      moreover have "length (filter (\<lambda>s. type s = Insert) (body_steps arr i0 @ pre)) = nat (i - i0)"
        using d(4,6) by (simp add: filter_insert_body)
      moreover have "i0 \<le> i" using d(4) by simp
      ultimately show ?thesis
        using d(5) by blast
    qed
  qed
qed

section \<open>Repeated playback steps\<close>

lemma stepForward_funpow:
  "steps \<noteq> [] \<Longrightarrow> (stepForward steps ^^ k) 0 = min (int k) (int (length steps) - 1)"
proof (induction k)
  case 0
  then show ?case by (cases steps) simp_all
next
  case (Suc k)
  then show ?case by (simp add: stepForward_def)
qed

section \<open>Tags do not change a run\<close>

lemma search_erase:
  "0 \<le> low \<Longrightarrow> high < int (length arr) \<Longrightarrow>
     probes (map tval arr) (tval val) i low high = map erase (probes arr val i low high) \<and>
     search_pos (map tval arr) (tval val) i low high = search_pos arr val i low high"
proof (induction low high rule: search_induct [of _ arr val])
  case (exit low high)
  then show ?case
    by (simp add: probes_rec [of _ _ i low high] search_pos_rec [of _ _ i low high])
next
  case (probe low high)
  define mid where "mid = (low + high) div 2"
  have m: "low \<le> mid" "mid \<le> high" using probe.hyps by (auto simp: mid_def)
  then have r: "nat mid < length arr" using probe.prems by auto
  then have c: "(map tval arr ! nat mid < tval val) = (arr ! nat mid < val)"
    by (simp add: less_tagged_def)
  have e: "probe_step (map tval arr) i low high = erase (probe_step arr i low high)"
    using r by (simp add: probe_step_def erase_def mid_def)
  show ?case
  proof (cases "arr ! nat mid < val")
    case True
    have "0 \<le> mid + 1" using m probe.prems by simp
    from probe.IH(1) [folded mid_def, OF True this probe.prems(2)] True c e probe.hyps
    show ?thesis
      by (simp add: probes_rec [of _ _ i low high] search_pos_rec [of _ _ i low high] mid_def)
  next
    case False
    have "mid - 1 < int (length arr)" using m probe.prems by simp
    from probe.IH(2) [folded mid_def, OF False probe.prems(1) this] False c e probe.hyps
    show ?thesis
      by (simp add: probes_rec [of _ _ i low high] search_pos_rec [of _ _ i low high] mid_def)
  qed
qed

lemma shift_erase:
  "0 \<le> pos \<Longrightarrow> j < int (length arr) \<Longrightarrow>
     shifts (map tval arr) i pos j = map erase (shifts arr i pos j) \<and>
     shifted (map tval arr) i pos j = map tval (shifted arr i pos j)"
proof (induction "nat (j - pos)" arbitrary: arr j rule: less_induct)
  case less
  show ?case
  proof (cases "j > pos")
    case False
    then show ?thesis
      by (simp add: shifts_rec [of _ i pos j] shifted_rec [of _ i pos j])
  next
    case True
    define arr' where "arr' = arr[nat j := arr ! nat (j - 1)]"
    have dec: "nat (j - 1 - pos) < nat (j - pos)" using True by simp
    have r: "nat (j - 1) < length arr" using True less.prems by auto
    then have u: "(map tval arr)[nat j := map tval arr ! nat (j - 1)] = map tval arr'"
      by (simp add: arr'_def map_update)
    have e: "shift_step (map tval arr) i pos j = erase (shift_step arr i pos j)"
      by (simp add: shift_step_def erase_def)
    have "j - 1 < int (length arr')" using less.prems by (simp add: arr'_def)
    from less.hyps [OF dec less.prems(1) this] True u e show ?thesis
      by (simp add: shifts_rec [of _ i pos j] shifted_rec [of _ i pos j] arr'_def)
  qed
qed

lemma body_erase:
  assumes "0 \<le> i" "i < int (length arr)"
  shows "body_steps (map tval arr) i = map erase (body_steps arr i) \<and>
     body_arr (map tval arr) i = map tval (body_arr arr i)"
proof -
  have v: "map tval arr ! nat i = tval (arr ! nat i)"
    using assms by simp
  have s: "probes (map tval arr) (tval (arr ! nat i)) i 0 (i - 1) =
      map erase (probes arr (arr ! nat i) i 0 (i - 1))"
    "search_pos (map tval arr) (tval (arr ! nat i)) i 0 (i - 1) =
      search_pos arr (arr ! nat i) i 0 (i - 1)"
    using search_erase [of 0 "i - 1" arr "arr ! nat i" i] assms by simp_all
  then have p: "insert_pos (map tval arr) i = insert_pos arr i"
    by (simp add: insert_pos_def v)
  have b: "0 \<le> insert_pos arr i"
    using insert_pos_bounds [OF assms(1), of arr] by simp
  have h: "shifts (map tval arr) i (insert_pos arr i) i = map erase (shifts arr i (insert_pos arr i) i)"
    "shifted (map tval arr) i (insert_pos arr i) i = map tval (shifted arr i (insert_pos arr i) i)"
    using shift_erase [OF b assms(2), of i] by simp_all
  have a: "body_arr (map tval arr) i = map tval (body_arr arr i)"
    by (simp add: body_arr_def p h v map_update)
  have "body_steps (map tval arr) i = map erase (body_steps arr i)"
    by (simp add: body_steps_def p s h v a start_step_def resolved_step_def insert_step_def
        erase_def)
  with a show ?thesis by simp
qed

lemma outer_erase:
  "0 \<le> i \<Longrightarrow> n \<le> int (length arr) \<Longrightarrow>
     outer_steps (map tval arr) n i = map erase (outer_steps arr n i) \<and>
     outer_arr (map tval arr) n i = map tval (outer_arr arr n i)"
proof (induction "nat (n - i)" arbitrary: arr i rule: less_induct)
  case less
  show ?case
  proof (cases "i < n")
    case False
    then show ?thesis
      by (simp add: outer_steps_rec [of _ n i] outer_arr_rec [of _ n i])
  next
    case True
    have dec: "nat (n - (i + 1)) < nat (n - i)" using True by simp
    have ia: "i < int (length arr)" using True less.prems(2) by simp
    note b = body_erase [OF less.prems(1) ia]
    have "0 \<le> i + 1" "n \<le> int (length (body_arr arr i))"
      using less.prems by simp_all
    from less.hyps [OF dec this] True b show ?thesis
      by (simp add: outer_steps_rec [of _ n i] outer_arr_rec [of _ n i])
  qed
qed

lemma generateSteps_erase: "generateSteps (map tval ts) = map erase (generateSteps ts)"
  using outer_erase [of 1 "int (length ts)" ts]
  by (simp add: generateSteps_unfold init_step_def complete_step_def erase_def)

section \<open>Three traces\<close>

text \<open>The traces of \<open>[2, 1]\<close>, \<open>[5, 3, 8, 1]\<close> and \<open>[3, 2, 1]\<close>, evaluated step by step.\<close>

lemma trace_2_1:
  "generateSteps [2, 1 :: int] =
     [init_step [2, 1], start_step [2, 1] 1, probe_step [2, 1] 1 0 0, resolved_step [2, 1] 1 0,
      shift_step [2, 1] 1 0 1, insert_step [1, 2] 0 1, complete_step [1, 2] 2]"
  by code_simp

lemma trace_5_3_8_1:
  "generateSteps [5, 3, 8, 1 :: int] =
     [init_step [5, 3, 8, 1],
      start_step [5, 3, 8, 1] 1, probe_step [5, 3, 8, 1] 1 0 0, resolved_step [5, 3, 8, 1] 1 0,
      shift_step [5, 3, 8, 1] 1 0 1, insert_step [3, 5, 8, 1] 0 3,
      start_step [3, 5, 8, 1] 2, probe_step [3, 5, 8, 1] 2 0 1, probe_step [3, 5, 8, 1] 2 1 1,
      resolved_step [3, 5, 8, 1] 2 2, insert_step [3, 5, 8, 1] 2 8,
      start_step [3, 5, 8, 1] 3, probe_step [3, 5, 8, 1] 3 0 2, probe_step [3, 5, 8, 1] 3 0 0,
      resolved_step [3, 5, 8, 1] 3 0, shift_step [3, 5, 8, 1] 3 0 3, shift_step [3, 5, 8, 8] 3 0 2,
      shift_step [3, 5, 5, 8] 3 0 1, insert_step [1, 3, 5, 8] 0 1,
      complete_step [1, 3, 5, 8] 4]"
  by code_simp

lemma trace_3_2_1:
  "generateSteps [3, 2, 1 :: int] =
     [init_step [3, 2, 1],
      start_step [3, 2, 1] 1, probe_step [3, 2, 1] 1 0 0, resolved_step [3, 2, 1] 1 0,
      shift_step [3, 2, 1] 1 0 1, insert_step [2, 3, 1] 0 2,
      start_step [2, 3, 1] 2, probe_step [2, 3, 1] 2 0 1, resolved_step [2, 3, 1] 2 0,
      shift_step [2, 3, 1] 2 0 2, shift_step [2, 3, 3] 2 0 1, insert_step [1, 2, 3] 0 1,
      complete_step [1, 2, 3] 3]"
  by code_simp

section \<open>The claims\<close>

text \<open>
  C1. For every input array, the last step of \<open>generateSteps\<close> is the complete step, its
  array is sorted in non-decreasing order, and its multiset of values is the multiset of the
  input.
\<close>

theorem C1_sorted_permutation:
  fixes xs :: "int list"
  shows "type (last (generateSteps xs)) = Complete \<and>
     sorted (array (last (generateSteps xs))) \<and>
     mset (array (last (generateSteps xs))) = mset xs"
proof -
  have "sorted (take (nat 1) xs)"
    by (cases xs) simp_all
  then have "sorted (outer_arr xs (int (length xs)) 1) \<and>
      mset (outer_arr xs (int (length xs)) 1) = mset xs"
    by (intro outer_arr_correct) simp_all
  then show ?thesis
    by (simp add: last_generateSteps complete_step_def)
qed

text \<open>
  C2. The claim is that equal elements keep their input order. The comparison of line 97 sends
  an equal \<^verbatim>\<open>arr[mid]\<close> to \<^verbatim>\<open>high = mid - 1\<close>, so the search returns the first position whose
  element is not smaller than \<open>val\<close>, and \<open>val\<close> is inserted in front of the elements equal
  to it. Tags do not change a run: with the tags erased, the trace of a tagged input is the
  trace of the plain numbers. On the input \<open>[4, 4]\<close>, with the two fours tagged \<open>0\<close> and \<open>1\<close>,
  the final array holds the second four before the first, so the elements with value \<open>4\<close> are
  not in their input order.
\<close>

theorem C2_stability_fails:
  "generateSteps (map tval ts) = map erase (generateSteps ts) \<and>
   array (last (generateSteps [Tagged 4 0, Tagged 4 1])) = [Tagged 4 1, Tagged 4 0] \<and>
   filter (\<lambda>x. tval x = 4) (array (last (generateSteps [Tagged 4 0, Tagged 4 1]))) \<noteq>
     filter (\<lambda>x. tval x = 4) [Tagged 4 0, Tagged 4 1]"
proof -
  have "array (last (generateSteps [Tagged 4 0, Tagged 4 1])) = [Tagged 4 1, Tagged 4 0]"
    by code_simp
  then show ?thesis
    by (simp add: generateSteps_erase)
qed

text \<open>
  C3. \<open>generateSteps\<close> is a total function: its three loops are defined with termination
  proofs, so it returns for every input, the empty one included. The trace is never empty, its
  first step is an init step and its last a complete step, and these are the only init and
  complete steps. For an input of length at most \<open>1\<close> the trace is exactly the init step and
  the complete step.
\<close>

theorem C3_init_complete:
  fixes xs :: "int list"
  shows "generateSteps xs \<noteq> [] \<and>
     type (hd (generateSteps xs)) = Init \<and>
     type (last (generateSteps xs)) = Complete \<and>
     length (filter (\<lambda>s. type s = Init) (generateSteps xs)) = 1 \<and>
     length (filter (\<lambda>s. type s = Complete) (generateSteps xs)) = 1 \<and>
     (length xs \<le> 1 \<longrightarrow>
        generateSteps xs = [init_step xs, complete_step xs (int (length xs))])"
proof -
  let ?mid = "outer_steps xs (int (length xs)) 1"
  have "filter (\<lambda>s. type s = Init) ?mid = []" "filter (\<lambda>s. type s = Complete) ?mid = []"
    using outer_steps_types [of _ xs "int (length xs)" 1] by (auto simp: filter_empty_conv)
  moreover have "length xs \<le> 1 \<longrightarrow> ?mid = [] \<and> outer_arr xs (int (length xs)) 1 = xs"
    using outer_steps_short [of "int (length xs)" xs] by simp
  ultimately show ?thesis
    by (simp add: generateSteps_unfold init_step_def complete_step_def)
qed

text \<open>The inputs \<open>[]\<close> and \<open>[7]\<close> give two steps; \<open>[2, 1]\<close> gives seven.\<close>

theorem C3_init_complete_witness:
  "generateSteps ([] :: int list) = [init_step [], complete_step [] 0] \<and>
   generateSteps [7 :: int] = [init_step [7], complete_step [7] 1] \<and>
   map type (generateSteps [2, 1 :: int]) = [Init, Search, Search, Search, Shift, Insert, Complete]"
proof -
  have "map type (generateSteps [2, 1 :: int]) =
      [Init, Search, Search, Search, Shift, Insert, Complete]"
    by code_simp
  then show ?thesis
    using C3_init_complete [of "[]"] C3_init_complete [of "[7]"] by simp
qed

text \<open>
  C4. Let \<open>1 \<le> i < n\<close>. The trace has exactly one resolved search step for \<open>i\<close> (a search
  step with target \<open>i\<close>, no range and one index); let \<open>pos\<close> be its index and \<open>a\<close> its
  snapshot. The shift steps with target \<open>i\<close> are, in trace order, those for
  \<open>j = i, i - 1, ..., pos + 1\<close>, so there are \<open>i - pos\<close> of them; the step for \<open>j\<close> has indices
  \<open>[j, j - 1]\<close> and the snapshot \<open>shift_right a j i\<close>: the assignments for \<open>i, ..., j + 1\<close> have
  been applied, and cell \<open>j\<close> still holds \<open>a[j]\<close>, so \<^verbatim>\<open>arr[j] = arr[j - 1]\<close> has not.
\<close>

theorem C4_shift_steps:
  fixes xs :: "int list"
  assumes "1 \<le> i" "i < int (length xs)"
  shows "\<exists>a pos.
     filter (\<lambda>s. type s = Search \<and> targetIdx s = Some i \<and> searchRange s = None \<and> indices s \<noteq> [])
       (generateSteps xs) = [resolved_step a i pos] \<and>
     0 \<le> pos \<and> pos \<le> i \<and> length a = length xs \<and>
     filter (\<lambda>s. type s = Shift \<and> targetIdx s = Some i) (generateSteps xs) =
       map (\<lambda>j. shift_step (shift_right a (nat j) (nat i)) i pos j) (rev [pos + 1..i]) \<and>
     length (filter (\<lambda>s. type s = Shift \<and> targetIdx s = Some i) (generateSteps xs)) = nat (i - pos) \<and>
     (\<forall>j. pos < j \<and> j \<le> i \<longrightarrow> shift_right a (nat j) (nat i) ! nat j = a ! nat j)"
proof -
  from generateSteps_decompose [OF assms]
  obtain pre post a where d: "generateSteps xs = pre @ body_steps a i @ post"
    "length a = length xs"
    "\<forall>s \<in> set pre. targetIdx s \<noteq> Some i" "\<forall>s \<in> set post. targetIdx s \<noteq> Some i"
    by blast
  define pos where "pos = insert_pos a i"
  have b: "0 \<le> pos" "pos \<le> i"
    using insert_pos_bounds [of i a] assms(1) by (simp_all add: pos_def)
  have ia: "i < int (length a)"
    using assms(2) d(2) by simp
  have f1: "filter Q (generateSteps xs) = filter Q (body_steps a i)"
    if "\<And>s. Q s \<Longrightarrow> targetIdx s = Some i" for Q
  proof -
    have "filter Q pre = []" "filter Q post = []"
      using d(3,4) that by (auto simp: filter_empty_conv)
    then show ?thesis by (simp add: d(1))
  qed
  have r: "filter (\<lambda>s. type s = Search \<and> targetIdx s = Some i \<and> searchRange s = None \<and> indices s \<noteq> [])
      (generateSteps xs) = [resolved_step a i pos]"
    by (subst f1) (simp_all only: filter_resolved_body pos_def)
  have s: "filter (\<lambda>s. type s = Shift \<and> targetIdx s = Some i) (generateSteps xs) =
      map (\<lambda>j. shift_step (shift_right a (nat j) (nat i)) i pos j) (rev [pos + 1..i])"
    by (subst f1) (simp_all only: filter_shifts_body shifts_closed [OF b ia] flip: pos_def)
  have n: "length (filter (\<lambda>s. type s = Shift \<and> targetIdx s = Some i) (generateSteps xs)) =
      nat (i - pos)"
    by (simp add: s)
  have c: "\<forall>j. pos < j \<and> j \<le> i \<longrightarrow> shift_right a (nat j) (nat i) ! nat j = a ! nat j"
    using ia b by (auto simp: nth_shift_right)
  from r b d(2) s n c show ?thesis by blast
qed

text \<open>
  On \<open>[5, 3, 8, 1]\<close> and \<open>i = 3\<close> the resolved position is \<open>0\<close> and there are three shift steps.
\<close>

theorem C4_shift_steps_witness:
  "(1::int) \<le> 3 \<and> 3 < int (length [5, 3, 8, 1 :: int]) \<and>
   filter (\<lambda>s. type s = Shift \<and> targetIdx s = Some 3) (generateSteps [5, 3, 8, 1 :: int]) =
     [shift_step [3, 5, 8, 1] 3 0 3, shift_step [3, 5, 8, 8] 3 0 2, shift_step [3, 5, 5, 8] 3 0 1] \<and>
   (\<exists>a pos.
      filter (\<lambda>s. type s = Search \<and> targetIdx s = Some 3 \<and> searchRange s = None \<and> indices s \<noteq> [])
        (generateSteps [5, 3, 8, 1 :: int]) = [resolved_step a 3 pos] \<and>
      a = [3, 5, 8, 1] \<and> pos = 0 \<and>
      length (filter (\<lambda>s. type s = Shift \<and> targetIdx s = Some 3) (generateSteps [5, 3, 8, 1 :: int])) =
        nat (3 - pos))"
proof -
  have h: "(1::int) \<le> 3" "3 < int (length [5, 3, 8, 1 :: int])"
    by simp_all
  have r: "filter (\<lambda>s. type s = Search \<and> targetIdx s = Some 3 \<and> searchRange s = None \<and> indices s \<noteq> [])
      (generateSteps [5, 3, 8, 1 :: int]) = [resolved_step [3, 5, 8, 1] 3 0]"
    by (simp add: trace_5_3_8_1 init_step_def start_step_def probe_step_def resolved_step_def
        shift_step_def insert_step_def complete_step_def)
  have s: "filter (\<lambda>s. type s = Shift \<and> targetIdx s = Some 3) (generateSteps [5, 3, 8, 1 :: int]) =
      [shift_step [3, 5, 8, 1] 3 0 3, shift_step [3, 5, 8, 8] 3 0 2, shift_step [3, 5, 5, 8] 3 0 1]"
    by (simp add: trace_5_3_8_1 init_step_def start_step_def probe_step_def resolved_step_def
        shift_step_def insert_step_def complete_step_def)
  from C4_shift_steps [OF h] obtain a pos where w:
    "filter (\<lambda>s. type s = Search \<and> targetIdx s = Some 3 \<and> searchRange s = None \<and> indices s \<noteq> [])
       (generateSteps [5, 3, 8, 1 :: int]) = [resolved_step a 3 pos]"
    "length (filter (\<lambda>s. type s = Shift \<and> targetIdx s = Some 3) (generateSteps [5, 3, 8, 1 :: int])) =
       nat (3 - pos)"
    by blast
  from w(1) r have "a = [3, 5, 8, 1]" "pos = 0"
    by (simp_all add: resolved_step_def)
  with w h s show ?thesis by blast
qed

text \<open>
  C5. Every step with a \<^verbatim>\<open>searchRange\<close> \<open>(low, high)\<close> has a target \<open>i\<close> with
  \<open>0 \<le> low \<le> high + 1 \<le> i\<close>. For every two consecutive steps \<open>s\<close>, \<open>t\<close> of the trace where
  \<open>s\<close> has a range: when the bounds updated by the comparison of \<open>s\<close> cross (\<open>low > high\<close>,
  the loop exits), \<open>t\<close> is a search step without range whose indices are \<open>[low]\<close>; otherwise
  \<open>t\<close> carries the updated range. A step with a range is never the last step of the trace
  (the last step is the complete step), so it always has such a successor.
\<close>

theorem C5_search_range:
  fixes xs :: "int list"
  shows "(\<forall>s \<in> set (generateSteps xs). \<forall>low high. searchRange s = Some (low, high) \<longrightarrow>
            (\<exists>i. targetIdx s = Some i \<and> 0 \<le> low \<and> low \<le> high + 1 \<and> high + 1 \<le> i)) \<and>
         successively
           (\<lambda>s t. \<forall>low high i. searchRange s = Some (low, high) \<and> targetIdx s = Some i \<longrightarrow>
              (let mid = (low + high) div 2;
                   low' = (if array s ! nat mid < array s ! nat i then mid + 1 else low);
                   high' = (if array s ! nat mid < array s ! nat i then high else mid - 1)
               in if low' > high'
                  then type t = Search \<and> indices t = [low'] \<and> searchRange t = None \<and>
                       targetIdx t = Some i
                  else searchRange t = Some (low', high') \<and> targetIdx t = Some i))
           (generateSteps xs) \<and>
         searchRange (last (generateSteps xs)) = None"
proof -
  have bounds: "\<forall>s \<in> set (generateSteps xs). \<forall>low high. searchRange s = Some (low, high) \<longrightarrow>
      (\<exists>i. targetIdx s = Some i \<and> 0 \<le> low \<and> low \<le> high + 1 \<and> high + 1 \<le> i)"
  proof (intro ballI allI impI)
    fix s low high
    assume s: "s \<in> set (generateSteps xs)" and r: "searchRange s = Some (low, high)"
    from s r have "s \<in> set (outer_steps xs (int (length xs)) 1)"
      by (auto simp: generateSteps_unfold init_step_def complete_step_def)
    from outer_steps_range [OF this] r
    show "\<exists>i. targetIdx s = Some i \<and> 0 \<le> low \<and> low \<le> high + 1 \<and> high + 1 \<le> i"
      by (auto simp: probe_step_def)
  qed
  have succ: "successively
      (\<lambda>s t. \<forall>low high i. searchRange s = Some (low, high) \<and> targetIdx s = Some i \<longrightarrow>
         (let mid = (low + high) div 2;
              low' = (if array s ! nat mid < array s ! nat i then mid + 1 else low);
              high' = (if array s ! nat mid < array s ! nat i then high else mid - 1)
          in if low' > high'
             then type t = Search \<and> indices t = [low'] \<and> searchRange t = None \<and>
                  targetIdx t = Some i
             else searchRange t = Some (low', high') \<and> targetIdx t = Some i))
      (generateSteps xs)"
    using generateSteps_successively [of xs]
    by (rule successively_mono) (simp add: probe_next_def)
  have "searchRange (last (generateSteps xs)) = None"
    by (simp add: last_generateSteps complete_step_def)
  with bounds succ show ?thesis
    by (intro conjI)
qed

text \<open>
  On \<open>[5, 3, 8, 1]\<close>, step 13 is the probe \<open>(0, 0)\<close> of iteration 3; the comparison \<open>3 < 1\<close>
  fails, the bounds become \<open>(0, -1)\<close>, and step 14 is the resolved step with indices \<open>[0]\<close>.
\<close>

theorem C5_search_range_witness:
  "generateSteps [5, 3, 8, 1 :: int] ! 13 \<in> set (generateSteps [5, 3, 8, 1]) \<and>
   searchRange (generateSteps [5, 3, 8, 1 :: int] ! 13) = Some (0, 0) \<and>
   targetIdx (generateSteps [5, 3, 8, 1 :: int] ! 13) = Some 3 \<and>
   (0::int) \<le> 0 + 1 \<and> (0::int) + 1 \<le> 3 \<and>
   array (generateSteps [5, 3, 8, 1 :: int] ! 13) = [3, 5, 8, 1] \<and>
   type (generateSteps [5, 3, 8, 1 :: int] ! 14) = Search \<and>
   indices (generateSteps [5, 3, 8, 1 :: int] ! 14) = [0] \<and>
   searchRange (generateSteps [5, 3, 8, 1 :: int] ! 14) = None"
proof -
  let ?tr = "generateSteps [5, 3, 8, 1 :: int]"
  have m: "?tr ! 13 \<in> set ?tr"
    by (simp add: trace_5_3_8_1)
  have r: "searchRange (?tr ! 13) = Some (0, 0)" "targetIdx (?tr ! 13) = Some 3"
    "array (?tr ! 13) = [3, 5, 8, 1]"
    by (simp_all add: trace_5_3_8_1 probe_step_def)
  have l: "Suc 13 < length ?tr"
    by (simp add: trace_5_3_8_1)
  note c = C5_search_range [of "[5, 3, 8, 1]"]
  from c m r(1) have "\<exists>i. targetIdx (?tr ! 13) = Some i \<and> (0::int) \<le> 0 \<and> (0::int) \<le> 0 + 1 \<and> 0 + 1 \<le> i"
    by blast
  with r(2) have b: "(0::int) \<le> 0 + 1" "(0::int) + 1 \<le> 3"
    by simp_all
  from successively_nth [OF conjunct1 [OF conjunct2 [OF c]] l] r
  have "type (?tr ! Suc 13) = Search \<and> indices (?tr ! Suc 13) = [0] \<and>
      searchRange (?tr ! Suc 13) = None"
    by (simp add: Let_def)
  with m r b show ?thesis by simp
qed

text \<open>
  C6, as the code has it. Let \<open>k\<close> be a position of the trace. If step \<open>k\<close> is a search step
  or a shift step, it carries a \<^verbatim>\<open>targetIdx\<close> \<open>i\<close>, and \<open>i\<close> is the outer-loop cursor of the
  iteration that pushed the step: \<open>1 \<le> i < n\<close>, exactly \<open>i - 1\<close> insert steps come before
  position \<open>k\<close> (iterations \<open>1, ..., i - 1\<close> are complete, each ending with its insert step), and
  position \<open>k\<close> lies inside the block of steps that iteration \<open>i\<close> pushes. If step \<open>k\<close> is an
  init, insert or complete step, it has no \<^verbatim>\<open>targetIdx\<close>: the insert step literal of lines
  128-134 does not set the field.
\<close>

theorem C6_targetIdx_presence:
  fixes xs :: "int list"
  assumes "k < length (generateSteps xs)"
  shows "((type (generateSteps xs ! k) = Search \<or> type (generateSteps xs ! k) = Shift) \<longrightarrow>
           (\<exists>i. targetIdx (generateSteps xs ! k) = Some i \<and> 1 \<le> i \<and> i < int (length xs) \<and>
              i = 1 + int (length (filter (\<lambda>s. type s = Insert) (take k (generateSteps xs)))) \<and>
              (\<exists>pre a post. generateSteps xs = pre @ body_steps a i @ post \<and>
                 length pre \<le> k \<and> k < length pre + length (body_steps a i)))) \<and>
         ((type (generateSteps xs ! k) = Init \<or> type (generateSteps xs ! k) = Insert \<or>
           type (generateSteps xs ! k) = Complete) \<longrightarrow> targetIdx (generateSteps xs ! k) = None)"
proof -
  let ?tr = "generateSteps xs"
  let ?out = "outer_steps xs (int (length xs)) 1"
  let ?c = "complete_step (outer_arr xs (int (length xs)) 1) (int (length xs))"
  have tr: "?tr = init_step xs # ?out @ [?c]"
    by (rule generateSteps_unfold)
  have "k < Suc (Suc (length ?out))"
    using assms by (simp add: tr)
  then consider "k = 0" | "k = Suc (length ?out)" | "0 < k" "k - 1 < length ?out"
    by linarith
  then show ?thesis
  proof cases
    case 1
    then show ?thesis by (simp add: tr init_step_def)
  next
    case 2
    then have "?tr ! k = ?c" by (simp add: tr nth_append)
    then show ?thesis by (simp add: complete_step_def)
  next
    case 3
    from outer_steps_block [OF 3(2)]
    obtain pre a i post where d: "?out = pre @ body_steps a i @ post"
      "length pre \<le> k - 1" "k - 1 < length pre + length (body_steps a i)" "1 \<le> i"
      "i < int (length xs)" "length (filter (\<lambda>s. type s = Insert) pre) = nat (i - 1)"
      by blast
    define m where "m = k - 1 - length pre"
    have m: "m < length (body_steps a i)" "k = Suc (length pre + m)"
      using d(2,3) 3(1) by (simp_all add: m_def)
    have s: "?tr ! k = body_steps a i ! m"
      by (simp add: tr d(1) m(2) nth_append m(1))
    then have mem: "?tr ! k \<in> set (body_steps a i)"
      using m(1) by simp
    note t = body_steps_target [OF mem]
    have dec: "?tr = (init_step xs # pre) @ body_steps a i @ (post @ [?c])"
      by (simp add: tr d(1))
    have blk: "length (init_step xs # pre) \<le> k"
      "k < length (init_step xs # pre) + length (body_steps a i)"
      using m by simp_all
    have cnt: "1 + int (length (filter (\<lambda>s. type s = Insert) (take k ?tr))) = i"
      if "type (?tr ! k) \<noteq> Insert"
    proof -
      have "take k ?tr = init_step xs # pre @ take m (body_steps a i)"
        using m(1) by (simp add: tr d(1) m(2))
      moreover have "filter (\<lambda>s. type s = Insert) (take m (body_steps a i)) = []"
        using m(1) that by (intro body_steps_no_insert_before) (simp_all add: s)
      ultimately show ?thesis
        using d(4,6) by (simp add: init_step_def)
    qed
    show ?thesis
    proof (cases "type (?tr ! k) = Search \<or> type (?tr ! k) = Shift")
      case True
      with t have ti: "targetIdx (?tr ! k) = Some i" by auto
      from True have "type (?tr ! k) \<noteq> Insert" by auto
      from cnt [OF this] have "i = 1 + int (length (filter (\<lambda>s. type s = Insert) (take k ?tr)))"
        by simp
      with ti d(4,5) dec blk
      have "\<exists>i. targetIdx (?tr ! k) = Some i \<and> 1 \<le> i \<and> i < int (length xs) \<and>
          i = 1 + int (length (filter (\<lambda>s. type s = Insert) (take k ?tr))) \<and>
          (\<exists>pre a post. ?tr = pre @ body_steps a i @ post \<and>
             length pre \<le> k \<and> k < length pre + length (body_steps a i))"
        by blast
      moreover have "\<not> (type (?tr ! k) = Init \<or> type (?tr ! k) = Insert \<or>
          type (?tr ! k) = Complete)"
        using True by auto
      ultimately show ?thesis
        by blast
    next
      case False
      with t show ?thesis by auto
    qed
  qed
qed

text \<open>
  On \<open>[2, 1]\<close>, step 4 is the shift step of iteration 1, with no insert step before it, and
  step 5 is the insert step of that iteration.
\<close>

theorem C6_targetIdx_presence_witness:
  "4 < length (generateSteps [2, 1 :: int]) \<and>
   type (generateSteps [2, 1 :: int] ! 4) = Shift \<and>
   targetIdx (generateSteps [2, 1 :: int] ! 4) = Some 1 \<and>
   (1::int) = 1 + int (length (filter (\<lambda>s. type s = Insert) (take 4 (generateSteps [2, 1 :: int])))) \<and>
   5 < length (generateSteps [2, 1 :: int]) \<and>
   type (generateSteps [2, 1 :: int] ! 5) = Insert \<and>
   targetIdx (generateSteps [2, 1 :: int] ! 5) = None"
proof -
  let ?tr = "generateSteps [2, 1 :: int]"
  have l: "4 < length ?tr" "5 < length ?tr"
    by (simp_all add: trace_2_1)
  have t4: "type (?tr ! 4) = Shift" and t5: "type (?tr ! 5) = Insert"
    by (simp_all add: trace_2_1 shift_step_def insert_step_def)
  from C6_targetIdx_presence [OF l(1)] t4
  obtain i where i: "targetIdx (?tr ! 4) = Some i"
    "i = 1 + int (length (filter (\<lambda>s. type s = Insert) (take 4 ?tr)))"
    by auto
  moreover have "targetIdx (?tr ! 4) = Some 1"
    by (simp add: trace_2_1 shift_step_def)
  ultimately have c: "(1::int) = 1 + int (length (filter (\<lambda>s. type s = Insert) (take 4 ?tr)))"
    "targetIdx (?tr ! 4) = Some 1"
    by simp_all
  have "targetIdx (?tr ! 5) = None"
    using C6_targetIdx_presence [OF l(2)] t5 by simp
  with l t4 t5 c show ?thesis by simp
qed

text \<open>
  C6 as stated asks for a \<^verbatim>\<open>targetIdx\<close> on insert steps. The insert step of the trace of
  \<open>[2, 1]\<close> has none.
\<close>

theorem C6_insert_counterexample:
  "type (generateSteps [2, 1 :: int] ! 5) = Insert \<and>
   targetIdx (generateSteps [2, 1 :: int] ! 5) = None"
  by (simp add: trace_2_1 insert_step_def)

text \<open>
  C7, as the code has it. Let \<open>1 \<le> i < n\<close>. The first step of the trace with target \<open>i\<close>, at
  some position \<open>k\<close>, follows the init step or an insert step. It is a search step with no
  indices and no \<^verbatim>\<open>searchRange\<close>: the bounds \<open>0\<close> and \<open>i - 1\<close> appear in its description only.
  The range \<open>(0, i - 1)\<close> is carried by the step after it, the first probe.
\<close>

theorem C7_search_start:
  fixes xs :: "int list"
  assumes "1 \<le> i" "i < int (length xs)"
  shows "\<exists>k a. 0 < k \<and> Suc k < length (generateSteps xs) \<and>
     (\<forall>m < k. targetIdx (generateSteps xs ! m) \<noteq> Some i) \<and>
     (type (generateSteps xs ! (k - 1)) = Init \<or> type (generateSteps xs ! (k - 1)) = Insert) \<and>
     generateSteps xs ! k =
       \<lparr>array = a, indices = [], targetIdx = Some i, searchRange = None, type = Search,
        description = SearchStartText i (a ! nat i) 0 (i - 1), codeLine = Some 3\<rparr> \<and>
     searchRange (generateSteps xs ! Suc k) = Some (0, i - 1) \<and>
     indices (generateSteps xs ! Suc k) = [0, (i - 1) div 2, i - 1] \<and>
     targetIdx (generateSteps xs ! Suc k) = Some i"
proof -
  from generateSteps_decompose [OF assms]
  obtain pre post a where d: "generateSteps xs = pre @ body_steps a i @ post"
    "pre \<noteq> []" "type (last pre) = Init \<or> type (last pre) = Insert"
    "\<forall>s \<in> set pre. targetIdx s \<noteq> Some i"
    by blast
  define k where "k = length pre"
  have p: "probes a (a ! nat i) i 0 (i - 1) =
      probe_step a i 0 (i - 1) # tl (probes a (a ! nat i) i 0 (i - 1))"
    using assms(1) by (simp add: probes_rec [of a "a ! nat i" i 0 "i - 1"])
  have b: "body_steps a i = start_step a i # probe_step a i 0 (i - 1) # drop 2 (body_steps a i)"
    by (subst (1 2) body_steps_def, subst (1 2) p) simp
  have "0 < k" using d(2) by (simp add: k_def)
  moreover have "Suc k < length (generateSteps xs)"
    by (subst d(1), subst b) (simp add: k_def)
  moreover have "\<forall>m < k. targetIdx (generateSteps xs ! m) \<noteq> Some i"
    using d(4) by (simp add: d(1) k_def nth_append)
  moreover have "generateSteps xs ! (k - 1) = last pre"
    using d(2) by (simp add: d(1) k_def nth_append last_conv_nth)
  moreover have "generateSteps xs ! k = start_step a i"
    by (subst d(1), subst b) (simp add: k_def nth_append)
  moreover have "generateSteps xs ! Suc k = probe_step a i 0 (i - 1)"
    by (subst d(1), subst b) (simp add: k_def nth_append)
  ultimately show ?thesis
    using d(3) by (auto simp: start_step_def probe_step_def)
qed

text \<open>The instance \<open>i = 2\<close> on \<open>[5, 3, 8, 1]\<close>.\<close>

theorem C7_search_start_witness:
  "(1::int) \<le> 2 \<and> 2 < int (length [5, 3, 8, 1 :: int]) \<and>
   (\<exists>k a. 0 < k \<and> Suc k < length (generateSteps [5, 3, 8, 1 :: int]) \<and>
      generateSteps [5, 3, 8, 1 :: int] ! k =
        \<lparr>array = a, indices = [], targetIdx = Some 2, searchRange = None, type = Search,
         description = SearchStartText 2 (a ! nat 2) 0 (2 - 1), codeLine = Some 3\<rparr> \<and>
      searchRange (generateSteps [5, 3, 8, 1 :: int] ! Suc k) = Some (0, 2 - 1))"
proof -
  have h: "(1::int) \<le> 2" "2 < int (length [5, 3, 8, 1 :: int])"
    by simp_all
  from C7_search_start [OF h] h show ?thesis
    by blast
qed

text \<open>
  C7 as stated asks for the range \<open>(0, i - 1)\<close> on the first step of iteration \<open>i\<close>. On \<open>[2, 1]\<close>
  the first step of iteration 1, right after the init step, has no range.
\<close>

theorem C7_search_start_counterexample:
  "type (generateSteps [2, 1 :: int] ! 0) = Init \<and>
   type (generateSteps [2, 1 :: int] ! 1) = Search \<and>
   targetIdx (generateSteps [2, 1 :: int] ! 1) = Some 1 \<and>
   searchRange (generateSteps [2, 1 :: int] ! 1) \<noteq> Some (0, 1 - 1)"
  by (simp add: trace_2_1 init_step_def start_step_def)

text \<open>
  C8. For every \<open>i\<close>, take the steps of the trace that carry a range and have target \<open>i\<close>, in
  trace order: these are the probes of the binary search of iteration \<open>i\<close>. Each of them has
  a strictly smaller width \<open>high - low\<close> than every earlier one, in particular than the one
  just before it.
\<close>

theorem C8_narrowing:
  fixes xs :: "int list"
  shows "sorted_wrt
           (\<lambda>s t. \<forall>low high low' high'.
              searchRange s = Some (low, high) \<and> searchRange t = Some (low', high') \<longrightarrow>
              high' - low' < high - low)
           (filter (\<lambda>s. searchRange s \<noteq> None \<and> targetIdx s = Some i) (generateSteps xs)) \<and>
         successively
           (\<lambda>s t. \<forall>low high low' high'.
              searchRange s = Some (low, high) \<and> searchRange t = Some (low', high') \<longrightarrow>
              high' - low' < high - low)
           (filter (\<lambda>s. searchRange s \<noteq> None \<and> targetIdx s = Some i) (generateSteps xs))"
proof -
  let ?Q = "\<lambda>s::int SortingStep. searchRange s \<noteq> None \<and> targetIdx s = Some i"
  have "sorted_wrt narrower (filter ?Q (generateSteps xs))"
  proof (cases "1 \<le> i \<and> i < int (length xs)")
    case True
    then obtain a where "filter ?Q (generateSteps xs) = filter ?Q (body_steps a i)"
      using filter_iteration [of ?Q i xs] by auto
    then show ?thesis
      by (simp only: filter_probes_body probes_narrower)
  next
    case False
    then have "filter ?Q (generateSteps xs) = []"
      by (intro filter_no_iteration [of ?Q i]) simp_all
    then show ?thesis by simp
  qed
  then have "sorted_wrt
      (\<lambda>s t. \<forall>low high low' high'.
         searchRange s = Some (low, high) \<and> searchRange t = Some (low', high') \<longrightarrow>
         high' - low' < high - low)
      (filter ?Q (generateSteps xs))"
    by (rule sorted_wrt_mono_rel [rotated]) (simp add: narrower_def)
  then show ?thesis
    by (simp add: successively_if_sorted_wrt)
qed

text \<open>On \<open>[5, 3, 8, 1]\<close>, iteration 3 probes \<open>(0, 2)\<close>, then \<open>(0, 0)\<close>.\<close>

theorem C8_narrowing_witness:
  "filter (\<lambda>s. searchRange s \<noteq> None \<and> targetIdx s = Some 3) (generateSteps [5, 3, 8, 1 :: int]) =
     [probe_step [3, 5, 8, 1] 3 0 2, probe_step [3, 5, 8, 1] 3 0 0] \<and>
   searchRange (probe_step [3, 5, 8, 1 :: int] 3 0 2) = Some (0, 2) \<and>
   searchRange (probe_step [3, 5, 8, 1 :: int] 3 0 0) = Some (0, 0) \<and>
   (0::int) - 0 < 2 - 0"
proof -
  have f: "filter (\<lambda>s. searchRange s \<noteq> None \<and> targetIdx s = Some 3)
      (generateSteps [5, 3, 8, 1 :: int]) =
      [probe_step [3, 5, 8, 1] 3 0 2, probe_step [3, 5, 8, 1] 3 0 0]"
    by (simp add: trace_5_3_8_1 init_step_def start_step_def probe_step_def resolved_step_def
        shift_step_def insert_step_def complete_step_def)
  have r: "searchRange (probe_step [3, 5, 8, 1 :: int] 3 0 2) = Some (0, 2)"
    "searchRange (probe_step [3, 5, 8, 1 :: int] 3 0 0) = Some (0, 0)"
    by (simp_all add: probe_step_def)
  from C8_narrowing [of 3 "[5, 3, 8, 1]"]
  have "(0::int) - 0 < 2 - 0"
    unfolding f using r by simp
  with f r show ?thesis by simp
qed

text \<open>
  C9, as the code has it. For a trace that is not empty and a cursor within
  \<open>[0, length - 1]\<close>, both operations keep the cursor in that interval; \<open>stepForward\<close> adds
  one except at the last index, \<open>stepBackward\<close> subtracts one except at \<open>0\<close>; from cursor \<open>0\<close>,
  \<open>length\<close> calls of \<open>stepForward\<close>, or more, end on the last index.
\<close>

theorem C9_playback_bounds:
  assumes "steps \<noteq> []" "0 \<le> c" "c \<le> int (length steps) - 1"
  shows "0 \<le> stepForward steps c \<and> stepForward steps c \<le> int (length steps) - 1 \<and>
     0 \<le> stepBackward c \<and> stepBackward c \<le> int (length steps) - 1 \<and>
     stepForward steps c = (if c = int (length steps) - 1 then c else c + 1) \<and>
     stepBackward c = (if c = 0 then 0 else c - 1) \<and>
     (stepForward steps ^^ length steps) 0 = int (length steps) - 1 \<and>
     (\<forall>k \<ge> length steps. (stepForward steps ^^ k) 0 = int (length steps) - 1)"
proof -
  have "(stepForward steps ^^ k) 0 = min (int k) (int (length steps) - 1)" for k
    using assms(1) by (rule stepForward_funpow)
  then have "(stepForward steps ^^ length steps) 0 = int (length steps) - 1"
    and "\<forall>k \<ge> length steps. (stepForward steps ^^ k) 0 = int (length steps) - 1"
    by simp_all
  moreover have "0 \<le> stepForward steps c \<and> stepForward steps c \<le> int (length steps) - 1 \<and>
      0 \<le> stepBackward c \<and> stepBackward c \<le> int (length steps) - 1 \<and>
      stepForward steps c = (if c = int (length steps) - 1 then c else c + 1) \<and>
      stepBackward c = (if c = 0 then 0 else c - 1)"
    using assms by (auto simp: stepForward_def stepBackward_def)
  ultimately show ?thesis by blast
qed

text \<open>The trace of \<open>[2, 1]\<close> has seven steps; its last index is \<open>6\<close>.\<close>

theorem C9_playback_bounds_witness:
  "stepForward (generateSteps [2, 1 :: int]) 6 = 6 \<and>
   stepForward (generateSteps [2, 1 :: int]) 3 = 4 \<and>
   stepBackward 0 = 0 \<and> stepBackward 3 = 2 \<and>
   (stepForward (generateSteps [2, 1 :: int]) ^^ length (generateSteps [2, 1 :: int])) 0 = 6"
proof -
  have l: "length (generateSteps [2, 1 :: int]) = 7"
    by (simp add: trace_2_1)
  then have ne: "generateSteps [2, 1 :: int] \<noteq> []"
    by auto
  from C9_playback_bounds [OF ne, of 6] C9_playback_bounds [OF ne, of 3]
    C9_playback_bounds [OF ne, of 0]
  show ?thesis
    by (simp add: l)
qed

text \<open>
  C9 as stated speaks of every trace and every cursor. On the empty trace, which is the state
  of the page before the first \<^verbatim>\<open>reset\<close>, \<open>stepForward\<close> moves the cursor from \<open>0\<close> to \<open>-1\<close>. From
  a cursor beyond the last index, \<open>stepBackward\<close> subtracts one and may stay beyond it.
\<close>

theorem C9_empty_trace_counterexample:
  "stepForward ([] :: int SortingStep list) 0 = - 1 \<and>
   \<not> 0 \<le> stepForward ([] :: int SortingStep list) 0 \<and>
   stepBackward 5 = 4 \<and> \<not> stepBackward 5 \<le> int (length [init_step ([] :: int list)]) - 1"
  by (simp add: stepForward_def stepBackward_def)

text \<open>
  C10. There is one insert step per iteration, so the insert step of iteration \<open>i\<close> is the
  \<open>i\<close>-th insert step of the trace (index \<open>i - 1\<close> among the insert steps). The cells \<open>0..i\<close> of
  its snapshot are sorted and the snapshot is a permutation of the input. Snapshots of shift
  steps need not be permutations: there is an input without repeated values and a shift step
  in its trace whose snapshot repeats a value.
\<close>

theorem C10_insert_snapshot:
  fixes xs :: "int list"
  assumes "1 \<le> i" "i < int (length xs)"
  shows "length (filter (\<lambda>s. type s = Insert) (generateSteps xs)) = length xs - 1 \<and>
     sorted (take (nat i + 1)
       (array (filter (\<lambda>s. type s = Insert) (generateSteps xs) ! (nat i - 1)))) \<and>
     mset (array (filter (\<lambda>s. type s = Insert) (generateSteps xs) ! (nat i - 1))) = mset xs \<and>
     (\<exists>ys :: int list. \<exists>s \<in> set (generateSteps ys).
        type s = Shift \<and> distinct ys \<and> \<not> distinct (array s) \<and> mset (array s) \<noteq> mset ys)"
proof -
  let ?ins = "filter (\<lambda>s. type s = Insert) (generateSteps xs)"
  let ?out = "filter (\<lambda>s. type s = Insert) (outer_steps xs (int (length xs)) 1)"
  have eq: "?ins = ?out"
    by (simp add: generateSteps_unfold init_step_def complete_step_def)
  have "sorted (take (nat 1) xs)"
    by (cases xs) simp_all
  then have inv: "length ?out = nat (int (length xs) - 1) \<and>
      (\<forall>k < nat (int (length xs) - 1).
         sorted (take (nat 1 + k + 1) (array (?out ! k))) \<and> mset (array (?out ! k)) = mset xs)"
    by (intro outer_steps_inserts) simp_all
  have k: "nat i - 1 < nat (int (length xs) - 1)" "nat 1 + (nat i - 1) + 1 = nat i + 1"
    using assms by auto
  have "shift_step [2, 3, 3] 2 0 1 \<in> set (generateSteps [3, 2, 1 :: int])"
    by (simp add: trace_3_2_1)
  moreover have "type (shift_step [2, 3, 3 :: int] 2 0 1) = Shift"
    "\<not> distinct (array (shift_step [2, 3, 3 :: int] 2 0 1))"
    "mset (array (shift_step [2, 3, 3 :: int] 2 0 1)) \<noteq> mset [3, 2, 1]"
    "distinct [3, 2, 1 :: int]"
    by (simp_all add: shift_step_def)
  ultimately have ex: "\<exists>ys :: int list. \<exists>s \<in> set (generateSteps ys).
      type s = Shift \<and> distinct ys \<and> \<not> distinct (array s) \<and> mset (array s) \<noteq> mset ys"
    by blast
  from inv k have "sorted (take (nat i + 1) (array (?out ! (nat i - 1)))) \<and>
      mset (array (?out ! (nat i - 1))) = mset xs"
    by metis
  with inv ex show ?thesis
    by (simp add: eq nat_diff_distrib)
qed

text \<open>On \<open>[3, 2, 1]\<close> the insert step of iteration 2 has the snapshot \<open>[1, 2, 3]\<close>.\<close>

theorem C10_insert_snapshot_witness:
  "(1::int) \<le> 2 \<and> 2 < int (length [3, 2, 1 :: int]) \<and>
   filter (\<lambda>s. type s = Insert) (generateSteps [3, 2, 1 :: int]) ! (nat 2 - 1) =
     insert_step [1, 2, 3] 0 1 \<and>
   sorted (take (nat 2 + 1)
     (array (filter (\<lambda>s. type s = Insert) (generateSteps [3, 2, 1 :: int]) ! (nat 2 - 1)))) \<and>
   mset (array (filter (\<lambda>s. type s = Insert) (generateSteps [3, 2, 1 :: int]) ! (nat 2 - 1))) =
     mset [3, 2, 1]"
proof -
  have h: "(1::int) \<le> 2" "2 < int (length [3, 2, 1 :: int])"
    by simp_all
  have "filter (\<lambda>s. type s = Insert) (generateSteps [3, 2, 1 :: int]) ! (nat 2 - 1) =
      insert_step [1, 2, 3] 0 1"
    by (simp add: trace_3_2_1 init_step_def start_step_def probe_step_def resolved_step_def
        shift_step_def insert_step_def complete_step_def)
  with C10_insert_snapshot [OF h] h show ?thesis
    by blast
qed

end
